theory Spec2Isabelle
  imports Main "HOL-Library.Word" "HOL-Library.Sublist"
begin

section \<open>The CSV and TSV input readers of mongoimport\<close>

text \<open>
  The development embeds \<^verbatim>\<open>mongoimport/csv.go\<close> (the CSV reader) and the TSV reader that
  follows it in the same source file. Bytes are \<^typ>\<open>char\<close>, Go strings are
  \<^typ>\<open>string\<close>, \<^verbatim>\<open>uint64\<close> is \<^typ>\<open>64 word\<close>.
\<close>

subsection \<open>Errors\<close>

text \<open>
  The error values that travel through the two readers: \<^verbatim>\<open>io.EOF\<close>, any other failure
  reported by the byte source, the parse error of the csv reader, the formatted read error of the producer goroutines
  (\<^verbatim>\<open>fmt.Errorf("read error on entry #%v: %v", numProcessed, err)\<close>), the error of the
  field validation, and the error of a conversion with the index of the record.
\<close>

datatype error =
    EOF
  | SourceError string
  | ReadError "64 word" error
  | ParseError string
  | HeaderError string
  | ConversionError "64 word"

subsection \<open>The byte source and the size-tracking reader\<close>

text \<open>
  The \<^verbatim>\<open>io.Reader\<close> handed to the constructors (\<^verbatim>\<open>in\<close>): the bytes it still holds and
  the error it reports once they are used up (\<^verbatim>\<open>io.EOF\<close> for a source that simply ends).
  A \<^verbatim>\<open>Read\<close> into a buffer of \<open>n\<close> bytes hands over at most \<open>n\<close> bytes.
\<close>

record source =
  pending :: string
  ending :: error

definition source_Read :: "nat \<Rightarrow> source \<Rightarrow> (string \<times> error option) \<times> source" where
  "source_Read n s =
     (if pending s = [] then (([], Some (ending s)), s)
      else ((take n (pending s), None), s\<lparr>pending := drop n (pending s)\<rparr>))"

text \<open>
  Modelled from the spec: \<^verbatim>\<open>sizeTrackingReader\<close> and its \<^verbatim>\<open>Size\<close> method are not under
  \<^verbatim>\<open>src/\<close>; only the literal \<^verbatim>\<open>&sizeTrackingReader{in, 0}\<close> is. The Size-Tracking Source
  wraps a byte source and exposes the cumulative bytes consumed: every byte pulled
  from the underlying source through it is counted.
\<close>

record sizeTrackingReader =
  reader :: source
  bytesRead :: nat

definition sizeTrackingReader_Read ::
  "nat \<Rightarrow> sizeTrackingReader \<Rightarrow> (string \<times> error option) \<times> sizeTrackingReader" where
  "sizeTrackingReader_Read n t =
     (let (res, s) = source_Read n (reader t)
      in (res, t\<lparr>reader := s, bytesRead := bytesRead t + length (fst res)\<rparr>))"

definition Size :: "sizeTrackingReader \<Rightarrow> nat" where
  "Size t = bytesRead t"

text \<open>
  Both constructors build \<^verbatim>\<open>szCount := &sizeTrackingReader{in, 0}\<close>, so \<^verbatim>\<open>in\<close> and
  \<^verbatim>\<open>szCount\<close> are two \<^verbatim>\<open>io.Reader\<close> values over the same source. The one copy of the
  source lives in the tracker; a handle says through which of the two values a
  consumer reads. Reading through \<open>Rd_in\<close> moves the source and leaves the counter
  alone.
\<close>

datatype handle = Rd_in | Rd_szCount

definition io_Read ::
  "handle \<Rightarrow> nat \<Rightarrow> sizeTrackingReader \<Rightarrow> (string \<times> error option) \<times> sizeTrackingReader" where
  "io_Read h n t =
     (case h of
        Rd_szCount \<Rightarrow> sizeTrackingReader_Read n t
      | Rd_in \<Rightarrow> (let (res, s) = source_Read n (reader t) in (res, t\<lparr>reader := s\<rparr>)))"

subsection \<open>bufio.Reader\<close>

text \<open>
  Go's buffered reader: the reader it pulls from, the bytes buffered and not yet
  handed out, and the error of the last pull. \<open>fill\<close> pulls one chunk of at most
  4096 bytes (the default buffer size). \<open>ReadString\<close> returns the bytes up to and
  including the first delimiter; when the source fails first, it returns what was read
  together with that error.
\<close>

record bufio_Reader =
  rd :: handle
  buf :: string
  err :: "error option"

definition bufio_NewReader :: "handle \<Rightarrow> bufio_Reader" where
  "bufio_NewReader h = \<lparr>rd = h, buf = [], err = None\<rparr>"

definition fill :: "bufio_Reader \<Rightarrow> sizeTrackingReader \<Rightarrow> bufio_Reader \<times> sizeTrackingReader" where
  "fill b t =
     (let (res, t') = io_Read (rd b) 4096 t
      in (b\<lparr>buf := buf b @ fst res, err := snd res\<rparr>, t'))"

function ReadString ::
  "char \<Rightarrow> bufio_Reader \<Rightarrow> sizeTrackingReader
     \<Rightarrow> (string \<times> error option) \<times> bufio_Reader \<times> sizeTrackingReader" where
  "ReadString delim b t =
     (if delim \<in> set (buf b)
      then ((takeWhile (\<lambda>c. c \<noteq> delim) (buf b) @ [delim], None),
            b\<lparr>buf := tl (dropWhile (\<lambda>c. c \<noteq> delim) (buf b))\<rparr>, t)
      else (case err b of
              Some e \<Rightarrow> ((buf b, Some e), b\<lparr>buf := [], err := None\<rparr>, t)
            | None \<Rightarrow> ReadString delim (fst (fill b t)) (snd (fill b t))))"
  by pat_completeness auto
termination
proof (relation "measure (\<lambda>(delim, b, t).
          length (pending (reader t)) + (if err b = None then 1 else 0))")
  show "wf (measure (\<lambda>(delim, b, t).
          length (pending (reader t)) + (if err b = None then 1 else 0)))"
    by simp
next
  fix delim :: char and b :: bufio_Reader and t :: sizeTrackingReader
  assume "err b = None"
  then show "((delim, fst (fill b t), snd (fill b t)), (delim, b, t))
      \<in> measure (\<lambda>(delim, b, t).
          length (pending (reader t)) + (if err b = None then 1 else 0))"
    by (cases "rd b")
       (auto simp: fill_def io_Read_def sizeTrackingReader_Read_def source_Read_def
                   Let_def split: prod.splits)
qed

subsection \<open>strings.Split and strings.TrimRight\<close>

text \<open>
  \<^verbatim>\<open>strings.TrimRight(s, cutset)\<close> removes every trailing byte that occurs in the cutset.
  \<^verbatim>\<open>strings.Split(s, sep)\<close> cuts \<open>s\<close> at every occurrence of the separator, searched
  from the left; an empty separator cuts after every byte.
\<close>

definition TrimRight :: "string \<Rightarrow> string \<Rightarrow> string" where
  "TrimRight s cutset = rev (dropWhile (\<lambda>c. c \<in> set cutset) (rev s))"

function genSplit :: "string \<Rightarrow> string \<Rightarrow> string \<Rightarrow> string list" where
  "genSplit sep piece [] = [piece]"
| "genSplit sep piece (c # cs) =
     (if sep \<noteq> [] \<and> prefix sep (c # cs)
      then piece # genSplit sep [] (drop (length sep) (c # cs))
      else genSplit sep (piece @ [c]) cs)"
  by pat_completeness auto
termination
  by (relation "measure (\<lambda>(sep, piece, s). length s)") auto

definition Split :: "string \<Rightarrow> string \<Rightarrow> string list" where
  "Split s sep = (if sep = [] then map (\<lambda>c. [c]) s else genSplit sep [] s)"

subsection \<open>Constants of the TSV reader\<close>

definition entryDelimiter :: char where
  "entryDelimiter = CHR 0x0A"

definition tokenSeparator :: string where
  "tokenSeparator = [CHR 0x09]"

subsection \<open>Raw records\<close>

text \<open>
  \<^verbatim>\<open>ConvertibleDoc\<close> is the interface of the values sent on the record channel; its two
  implementations are the structs \<^verbatim>\<open>CSVConvertibleDoc{fields, data []string, index}\<close> and
  \<^verbatim>\<open>TSVConvertibleDoc{fields, data string, index}\<close>.
\<close>

datatype ConvertibleDoc =
    CSVConvertibleDoc "string list" "string list" "64 word"
  | TSVConvertibleDoc "string list" string "64 word"


fun doc_index :: "ConvertibleDoc \<Rightarrow> 64 word" where
  "doc_index (CSVConvertibleDoc fs d i) = i"
| "doc_index (TSVConvertibleDoc fs d i) = i"

text \<open>
  \<^verbatim>\<open>Convert\<close>, for both implementations. \<^verbatim>\<open>tokensToBSON\<close> is not under \<^verbatim>\<open>src/\<close>
  (the conversion contract of the spec, \<open>convert(fields, tokens, sequenceIndex)\<close>); it
  is a parameter, returning the document or an error.
\<close>

fun Convert ::
  "(string list \<Rightarrow> string list \<Rightarrow> 64 word \<Rightarrow> error + 'd) \<Rightarrow> ConvertibleDoc \<Rightarrow> error + 'd" where
  "Convert tokensToBSON (CSVConvertibleDoc fs d i) = tokensToBSON fs d i"
| "Convert tokensToBSON (TSVConvertibleDoc fs d i) =
     tokensToBSON fs (Split (TrimRight d [CHR 0x0D, CHR 0x0A]) tokenSeparator) i"

subsection \<open>The reader structs\<close>

text \<open>
  The two structs share \<^verbatim>\<open>fields\<close> (here \<open>fieldList\<close>: a record cannot have a field
  called \<open>fields\<close>), \<^verbatim>\<open>numProcessed\<close>, \<^verbatim>\<open>numDecoders\<close> and the embedded
  \<^verbatim>\<open>sizeTracker\<close>; each adds its underlying reader and the record read last.
\<close>

record InputReader =
  fieldList :: "string list"
  numProcessed :: "64 word"
  numDecoders :: int
  sizeTracker :: sizeTrackingReader

record TSVInputReader = InputReader +
  tsvReader :: bufio_Reader
  tsvRecord :: string

text \<open>
  What one pass through the body of a producer loop does: it sends a record and goes
  on, or it returns. \<open>Halt e sent r\<close> carries the error \<open>e\<close> of the failed read and
  the value sent on the error channel, if any.
\<close>

datatype 'r turn = Emit ConvertibleDoc 'r | Halt error "error option" 'r

text \<open>
  What a producer goroutine has done when it returns: the records sent on the record
  channel, in order; the value it sent on the error channel, if any; the error of
  its last read; the reader struct as it leaves it.
\<close>

record 'r produced =
  records :: "ConvertibleDoc list"
  sentErr :: "error option"
  lastErr :: error
  endState :: 'r

subsection \<open>The TSV reader\<close>

definition NewTSVInputReader :: "string list \<Rightarrow> source \<Rightarrow> int \<Rightarrow> TSVInputReader" where
  "NewTSVInputReader fs inp n =
     (let szCount = \<lparr>reader = inp, bytesRead = 0\<rparr>
      in \<lparr>fieldList = fs, numProcessed = 0, numDecoders = n, sizeTracker = szCount,
          tsvReader = bufio_NewReader Rd_in, tsvRecord = []\<rparr>)"

text \<open>
  \<^verbatim>\<open>validateReaderFields\<close> is not under \<^verbatim>\<open>src/\<close>; the header functions take it as the
  parameter \<open>validate\<close>.
\<close>

definition TSVInputReader_ReadAndValidateHeader ::
  "(string list \<Rightarrow> error option) \<Rightarrow> TSVInputReader \<Rightarrow> error option \<times> TSVInputReader" where
  "TSVInputReader_ReadAndValidateHeader validate r =
     (let (res, b, t) = ReadString entryDelimiter (tsvReader r) (sizeTracker r);
          r1 = r\<lparr>sizeTracker := t, tsvReader := b\<rparr>
      in case snd res of
           Some e \<Rightarrow> (Some e, r1)
         | None \<Rightarrow>
             (let r2 = r1\<lparr>fieldList :=
                        foldl (\<lambda>fs field. fs @ [TrimRight field [CHR 0x0D, CHR 0x0A]])
                          (fieldList r1) (Split (fst res) tokenSeparator)\<rparr>
              in (validate (fieldList r2), r2)))"

definition TSV_turn :: "TSVInputReader \<Rightarrow> TSVInputReader turn" where
  "TSV_turn r =
     (let (res, b, t) = ReadString entryDelimiter (tsvReader r) (sizeTracker r);
          r1 = r\<lparr>sizeTracker := t, tsvReader := b, tsvRecord := fst res\<rparr>
      in case snd res of
           Some e \<Rightarrow>
             (if e \<noteq> EOF
              then (let r2 = r1\<lparr>numProcessed := numProcessed r1 + 1\<rparr>
                    in Halt e (Some (ReadError (numProcessed r2) e)) r2)
              else Halt e None r1)
         | None \<Rightarrow>
             Emit (TSVConvertibleDoc (fieldList r1) (tsvRecord r1) (numProcessed r1))
                  (r1\<lparr>numProcessed := numProcessed r1 + 1\<rparr>))"

text \<open>The bytes of the source a buffered reader has not handed out yet.\<close>

definition unread :: "bufio_Reader \<Rightarrow> sizeTrackingReader \<Rightarrow> string" where
  "unread b t = buf b @ pending (reader t)"

text \<open>
  The buffered reader holds an error only when the source has nothing left, and then
  it is the source's error.
\<close>

definition synced :: "bufio_Reader \<Rightarrow> sizeTrackingReader \<Rightarrow> bool" where
  "synced b t =
     (case err b of None \<Rightarrow> True
      | Some e \<Rightarrow> pending (reader t) = [] \<and> e = ending (reader t))"

lemma fill_unread: "unread (fst (fill b t)) (snd (fill b t)) = unread b t"
  by (cases "rd b")
     (auto simp: unread_def fill_def io_Read_def sizeTrackingReader_Read_def source_Read_def
                 Let_def split: prod.splits)

lemma fill_synced: "synced (fst (fill b t)) (snd (fill b t))"
  by (cases "rd b")
     (auto simp: synced_def fill_def io_Read_def sizeTrackingReader_Read_def source_Read_def
                 Let_def split: prod.splits)

lemma fill_ending: "ending (reader (snd (fill b t))) = ending (reader t)"
  by (cases "rd b")
     (auto simp: fill_def io_Read_def sizeTrackingReader_Read_def source_Read_def
                 Let_def split: prod.splits)

lemma fill_rd: "rd (fst (fill b t)) = rd b"
  by (auto simp: fill_def Let_def split: prod.splits)

lemma fill_bytesRead_in: "rd b = Rd_in \<Longrightarrow> bytesRead (snd (fill b t)) = bytesRead t"
  by (auto simp: fill_def io_Read_def source_Read_def Let_def split: prod.splits)

lemma fill_bytesRead_szCount:
  "rd b = Rd_szCount \<Longrightarrow>
   bytesRead (snd (fill b t)) + length (pending (reader (snd (fill b t))))
     = bytesRead t + length (pending (reader t))"
  by (auto simp: fill_def io_Read_def sizeTrackingReader_Read_def source_Read_def
                 Let_def split: prod.splits)

declare ReadString.simps [simp del]

lemma ReadString_found:
  "synced b t \<Longrightarrow> delim \<in> set (unread b t) \<Longrightarrow>
   fst (ReadString delim b t) = (takeWhile (\<lambda>c. c \<noteq> delim) (unread b t) @ [delim], None) \<and>
   unread (fst (snd (ReadString delim b t))) (snd (snd (ReadString delim b t)))
     = tl (dropWhile (\<lambda>c. c \<noteq> delim) (unread b t)) \<and>
   synced (fst (snd (ReadString delim b t))) (snd (snd (ReadString delim b t)))"
proof (induction delim b t rule: ReadString.induct)
  case (1 delim b t)
  show ?case
  proof (cases "delim \<in> set (buf b)")
    case True
    then have "dropWhile (\<lambda>c. c \<noteq> delim) (buf b) \<noteq> []"
      by (simp add: dropWhile_eq_Nil_conv)
    with True "1.prems"(1) show ?thesis
      by (simp add: ReadString.simps [of delim b t] unread_def synced_def
               takeWhile_append1 dropWhile_append1 split: option.splits)
  next
    case False
    show ?thesis
    proof (cases "err b")
      case None
      have "delim \<in> set (unread (fst (fill b t)) (snd (fill b t)))"
        using "1.prems"(2) by (simp add: fill_unread)
      with "1.IH" [OF False None fill_synced] False None show ?thesis
        by (simp add: ReadString.simps [of delim b t] fill_unread)
    next
      case (Some e)
      with "1.prems" False show ?thesis
        by (simp add: ReadString.simps [of delim b t] unread_def synced_def)
    qed
  qed
qed

lemma ReadString_missing:
  "synced b t \<Longrightarrow> delim \<notin> set (unread b t) \<Longrightarrow>
   fst (ReadString delim b t) = (unread b t, Some (ending (reader t))) \<and>
   unread (fst (snd (ReadString delim b t))) (snd (snd (ReadString delim b t))) = [] \<and>
   synced (fst (snd (ReadString delim b t))) (snd (snd (ReadString delim b t)))"
proof (induction delim b t rule: ReadString.induct)
  case (1 delim b t)
  from "1.prems"(2) have nb: "delim \<notin> set (buf b)"
    by (simp add: unread_def)
  show ?case
  proof (cases "err b")
    case None
    have "delim \<notin> set (unread (fst (fill b t)) (snd (fill b t)))"
      using "1.prems"(2) by (simp add: fill_unread)
    with "1.IH" [OF nb None fill_synced] nb None show ?thesis
      by (simp add: ReadString.simps [of delim b t] fill_unread fill_ending)
  next
    case (Some e)
    with "1.prems" nb show ?thesis
      by (simp add: ReadString.simps [of delim b t] unread_def synced_def)
  qed
qed

lemma ReadString_ending:
  "ending (reader (snd (snd (ReadString delim b t)))) = ending (reader t)"
proof (induction delim b t rule: ReadString.induct)
  case (1 delim b t)
  then show ?case
    by (cases "err b") (simp_all add: ReadString.simps [of delim b t] fill_ending)
qed

lemma ReadString_rd: "rd (fst (snd (ReadString delim b t))) = rd b"
proof (induction delim b t rule: ReadString.induct)
  case (1 delim b t)
  then show ?case
    by (cases "err b") (simp_all add: ReadString.simps [of delim b t] fill_rd)
qed

lemma ReadString_bytesRead_in:
  "rd b = Rd_in \<Longrightarrow> bytesRead (snd (snd (ReadString delim b t))) = bytesRead t"
proof (induction delim b t rule: ReadString.induct)
  case (1 delim b t)
  then show ?case
    by (cases "err b") (simp_all add: ReadString.simps [of delim b t] fill_rd fill_bytesRead_in)
qed


lemma ReadString_progress:
  "snd (fst (ReadString delim b t)) = None \<Longrightarrow>
   length (unread (fst (snd (ReadString delim b t))) (snd (snd (ReadString delim b t))))
     < length (unread b t)"
proof (induction delim b t rule: ReadString.induct)
  case (1 delim b t)
  show ?case
  proof (cases "delim \<in> set (buf b)")
    case True
    then have "dropWhile (\<lambda>c. c \<noteq> delim) (buf b) \<noteq> []"
      by (simp add: dropWhile_eq_Nil_conv)
    then have "length (tl (dropWhile (\<lambda>c. c \<noteq> delim) (buf b))) < length (buf b)"
      using length_dropWhile_le [of "\<lambda>c. c \<noteq> delim" "buf b"]
      by (cases "dropWhile (\<lambda>c. c \<noteq> delim) (buf b)") auto
    with True show ?thesis
      by (simp add: ReadString.simps [of delim b t] unread_def)
  next
    case False
    show ?thesis
    proof (cases "err b")
      case None
      with "1.IH" [OF False None] "1.prems" False show ?thesis
        by (simp add: ReadString.simps [of delim b t] fill_unread)
    next
      case (Some e)
      with "1.prems" False show ?thesis
        by (simp add: ReadString.simps [of delim b t])
    qed
  qed
qed

lemma TSV_turn_progress:
  "TSV_turn r = Emit d r' \<Longrightarrow>
   length (unread (tsvReader r') (sizeTracker r'))
     < length (unread (tsvReader r) (sizeTracker r))"
proof -
  obtain res b t where rs: "ReadString entryDelimiter (tsvReader r) (sizeTracker r) = (res, b, t)"
    by (cases "ReadString entryDelimiter (tsvReader r) (sizeTracker r)") auto
  assume "TSV_turn r = Emit d r'"
  with rs have "snd res = None" and "tsvReader r' = b" and "sizeTracker r' = t"
    by (auto simp: TSV_turn_def Let_def split: option.splits if_splits)
  with rs ReadString_progress [of entryDelimiter "tsvReader r" "sizeTracker r"]
  show ?thesis by simp
qed

function TSV_producer :: "TSVInputReader \<Rightarrow> TSVInputReader produced" where
  "TSV_producer r =
     (case TSV_turn r of
        Emit d r' \<Rightarrow> (let p = TSV_producer r' in p\<lparr>records := d # records p\<rparr>)
      | Halt e sent r' \<Rightarrow> \<lparr>records = [], sentErr = sent, lastErr = e, endState = r'\<rparr>)"
  by pat_completeness auto
termination
  by (relation "measure (\<lambda>r. length (unread (tsvReader r) (sizeTracker r)))")
     (auto dest: TSV_turn_progress)


declare TSV_producer.simps [simp del]

subsection \<open>The csv package\<close>

text \<open>
  Modelled from the spec: the package \<^verbatim>\<open>mongoimport/csv\<close> that \<^verbatim>\<open>csv.go\<close> imports is not
  under \<^verbatim>\<open>src/\<close>. The specification says of CSV framing that a record is one framing
  unit, which may span embedded separators and quoting, that the number of tokens of a
  record is free, and that the structural quoting rules of the format apply. The reader
  below spells this out with the record grammar of Go's \<^verbatim>\<open>encoding/csv\<close>, whose fields
  \<^verbatim>\<open>FieldsPerRecord\<close> and \<^verbatim>\<open>TrimLeadingSpace\<close> the constructor sets: fields are separated
  by commas and records by line feeds, a carriage return before a line feed is dropped,
  a field in double quotes may hold commas, line feeds and doubled quotes, a quote
  elsewhere is a parse error, blank lines are skipped, and with \<^verbatim>\<open>TrimLeadingSpace\<close>
  the white space at the start of a field is skipped. Runes are bytes here, so only
  ASCII white space is trimmed.

  The parser works on the bytes buffered so far and on the error the buffered reader
  holds: \<open>More\<close> asks for another chunk of the source, \<open>Fail\<close> is an error, \<open>Done\<close>
  carries a result and the bytes left over. After a failed \<open>Read\<close> the buffer is left
  as it was; the readers never read again after a failure.
\<close>

datatype 'a parsed = More | Fail error | Done 'a string

datatype delim = AtComma | AtNewline | AtEOF

definition stop :: "error option \<Rightarrow> 'a parsed" where
  "stop e = (case e of None \<Rightarrow> More | Some x \<Rightarrow> Fail x)"

definition readRune :: "error option \<Rightarrow> string \<Rightarrow> char parsed" where
  "readRune e cs =
     (case cs of
        [] \<Rightarrow> stop e
      | c # r \<Rightarrow>
          if c = CHR 0x0D
          then (case r of
                  [] \<Rightarrow> stop e
                | d # r' \<Rightarrow> if d = CHR 0x0A then Done (CHR 0x0A) r' else Done (CHR 0x0D) r)
          else Done c r)"

definition isSpace :: "char \<Rightarrow> bool" where
  "isSpace c = (c \<in> {CHR 0x09, CHR 0x0A, CHR 0x0B, CHR 0x0C, CHR 0x0D, CHR 0x20})"

lemma readRune_shorter: "readRune e cs = Done c r \<Longrightarrow> length r < length cs"
  by (auto simp: readRune_def stop_def split: list.splits if_splits option.splits)

lemma readRune_More: "readRune e cs = More \<Longrightarrow> e = None"
  by (auto simp: readRune_def stop_def split: list.splits if_splits option.splits)

function unquoted :: "error option \<Rightarrow> string \<Rightarrow> string \<Rightarrow> (bool \<times> string \<times> delim) parsed" where
  "unquoted e field cs =
     (case readRune e cs of
        More \<Rightarrow> More
      | Fail x \<Rightarrow> if x = EOF then Done (True, field, AtEOF) [] else Fail x
      | Done c r \<Rightarrow>
          if c = CHR '','' then Done (True, field, AtComma) r
          else if c = CHR 0x0A then Done (True, field, AtNewline) r
          else if c = CHR 0x22 then Fail (ParseError ''bare quote in non-quoted field'')
          else unquoted e (field @ [c]) r)"
  by pat_completeness auto
termination
  by (relation "measure (\<lambda>(e, field, cs). length cs)") (auto dest: readRune_shorter)

function quoted :: "error option \<Rightarrow> string \<Rightarrow> string \<Rightarrow> (bool \<times> string \<times> delim) parsed" where
  "quoted e field cs =
     (case readRune e cs of
        More \<Rightarrow> More
      | Fail x \<Rightarrow> if x = EOF then Fail (ParseError ''extraneous quote in field'') else Fail x
      | Done c r \<Rightarrow>
          if c = CHR 0x22
          then (case readRune e r of
                  More \<Rightarrow> More
                | Fail x \<Rightarrow> if x = EOF then Done (True, field, AtEOF) [] else Fail x
                | Done c2 r2 \<Rightarrow>
                    if c2 = CHR '','' then Done (True, field, AtComma) r2
                    else if c2 = CHR 0x0A then Done (True, field, AtNewline) r2
                    else if c2 \<noteq> CHR 0x22
                    then Fail (ParseError ''extraneous quote in field'')
                    else quoted e (field @ [c2]) r2)
          else quoted e (field @ [c]) r)"
  by pat_completeness auto
termination
  apply (relation "measure (\<lambda>(e, field, cs). length cs)")
    apply (auto dest!: readRune_shorter)
  done

function parseField :: "bool \<Rightarrow> error option \<Rightarrow> bool \<Rightarrow> string \<Rightarrow> (bool \<times> string \<times> delim) parsed" where
  "parseField trim e col0 cs =
     (case readRune e cs of
        More \<Rightarrow> More
      | Fail x \<Rightarrow> if x = EOF then Done (\<not> col0, [], AtEOF) [] else Fail x
      | Done c r \<Rightarrow>
          if trim \<and> c \<noteq> CHR 0x0A \<and> isSpace c then parseField trim e False r
          else if c = CHR '','' then Done (True, [], AtComma) r
          else if c = CHR 0x0A then Done (\<not> col0, [], AtNewline) r
          else if c = CHR 0x22 then quoted e [] r
          else unquoted e [c] r)"
  by pat_completeness auto
termination
  by (relation "measure (\<lambda>(trim, e, col0, cs). length cs)") (auto dest: readRune_shorter)


declare unquoted.simps [simp del] quoted.simps [simp del] parseField.simps [simp del]

lemma unquoted_shorter:
  "unquoted e field cs = Done res r \<Longrightarrow> r = [] \<or> length r < length cs"
proof (induction e field cs rule: unquoted.induct)
  case (1 e field cs)
  show ?case
  proof (cases "readRune e cs")
    case More
    with "1.prems" show ?thesis by (simp add: unquoted.simps [of e field cs])
  next
    case (Fail x)
    with "1.prems" show ?thesis
      by (simp add: unquoted.simps [of e field cs] split: if_splits)
  next
    case (Done c r')
    with "1.prems" "1.IH" [OF Done] readRune_shorter [OF Done] show ?thesis
      by (auto simp: unquoted.simps [of e field cs] split: if_splits)
  qed
qed

lemma unquoted_More: "unquoted e field cs = More \<Longrightarrow> e = None"
proof (induction e field cs rule: unquoted.induct)
  case (1 e field cs)
  show ?case
  proof (cases "readRune e cs")
    case More
    then show ?thesis by (rule readRune_More)
  next
    case (Fail x)
    with "1.prems" show ?thesis
      by (simp add: unquoted.simps [of e field cs] split: if_splits)
  next
    case (Done c r')
    with "1.prems" "1.IH" [OF Done] show ?thesis
      by (auto simp: unquoted.simps [of e field cs] split: if_splits)
  qed
qed

lemma quoted_shorter:
  "quoted e field cs = Done res r \<Longrightarrow> r = [] \<or> length r < length cs"
proof (induction e field cs rule: quoted.induct)
  case (1 e field cs)
  show ?case
  proof (cases "readRune e cs")
    case More
    with "1.prems" show ?thesis by (simp add: quoted.simps [of e field cs])
  next
    case (Fail x)
    with "1.prems" show ?thesis
      by (simp add: quoted.simps [of e field cs] split: if_splits)
  next
    case (Done c r')
    note d1 = this
    show ?thesis
    proof (cases "c = CHR 0x22")
      case False
      with "1.prems" "1.IH"(2) [OF d1 False] readRune_shorter [OF d1] show ?thesis
        by (auto simp: quoted.simps [of e field cs] d1)
    next
      case True
      show ?thesis
      proof (cases "readRune e r'")
        case More
        with "1.prems" d1 True show ?thesis by (simp add: quoted.simps [of e field cs])
      next
        case (Fail x)
        with "1.prems" d1 True show ?thesis
          by (simp add: quoted.simps [of e field cs] split: if_splits)
      next
        case (Done c2 r2)
        with "1.prems" d1 True "1.IH"(1) [OF d1 True Done]
          readRune_shorter [OF d1] readRune_shorter [OF Done]
        show ?thesis
          by (auto simp: quoted.simps [of e field cs] split: if_splits)
      qed
    qed
  qed
qed

lemma quoted_More: "quoted e field cs = More \<Longrightarrow> e = None"
proof (induction e field cs rule: quoted.induct)
  case (1 e field cs)
  show ?case
  proof (cases "readRune e cs")
    case More
    then show ?thesis by (rule readRune_More)
  next
    case (Fail x)
    with "1.prems" show ?thesis
      by (simp add: quoted.simps [of e field cs] split: if_splits)
  next
    case (Done c r')
    note d1 = this
    show ?thesis
    proof (cases "c = CHR 0x22")
      case False
      with "1.prems" "1.IH"(2) [OF d1 False] show ?thesis
        by (auto simp: quoted.simps [of e field cs] d1)
    next
      case True
      show ?thesis
      proof (cases "readRune e r'")
        case More
        then show ?thesis by (rule readRune_More)
      next
        case (Fail x)
        with "1.prems" d1 True show ?thesis
          by (simp add: quoted.simps [of e field cs] split: if_splits)
      next
        case (Done c2 r2)
        with "1.prems" d1 True "1.IH"(1) [OF d1 True Done]
        show ?thesis
          by (auto simp: quoted.simps [of e field cs] split: if_splits)
      qed
    qed
  qed
qed

lemma parseField_shorter:
  "parseField trim e col0 cs = Done res r \<Longrightarrow> r = [] \<or> length r < length cs"
proof (induction trim e col0 cs rule: parseField.induct)
  case (1 trim e col0 cs)
  show ?case
  proof (cases "readRune e cs")
    case More
    with "1.prems" show ?thesis by (simp add: parseField.simps [of trim e col0 cs])
  next
    case (Fail x)
    with "1.prems" show ?thesis
      by (simp add: parseField.simps [of trim e col0 cs] split: if_splits)
  next
    case (Done c r')
    with "1.prems" "1.IH" [OF Done] readRune_shorter [OF Done]
      quoted_shorter [of e "[]" r' res r] unquoted_shorter [of e "[c]" r' res r]
    show ?thesis
      by (auto simp: parseField.simps [of trim e col0 cs] split: if_splits)
  qed
qed

lemma parseField_More: "parseField trim e col0 cs = More \<Longrightarrow> e = None"
proof (induction trim e col0 cs rule: parseField.induct)
  case (1 trim e col0 cs)
  show ?case
  proof (cases "readRune e cs")
    case More
    then show ?thesis by (rule readRune_More)
  next
    case (Fail x)
    with "1.prems" show ?thesis
      by (simp add: parseField.simps [of trim e col0 cs] split: if_splits)
  next
    case (Done c r')
    with "1.prems" "1.IH" [OF Done] quoted_More [of e "[]" r'] unquoted_More [of e "[c]" r']
    show ?thesis
      by (auto simp: parseField.simps [of trim e col0 cs] split: if_splits)
  qed
qed


lemma parseField_progress:
  assumes "parseField trim e col0 cs = Done res r" and "snd (snd res) \<noteq> AtEOF"
  shows "length r < length cs"
proof (cases cs)
  case Nil
  with assms show ?thesis
    by (auto simp: parseField.simps [of trim e col0 "[]"] readRune_def stop_def
             split: option.splits if_splits)
next
  case (Cons c cs')
  with parseField_shorter [OF assms(1)] show ?thesis by auto
qed

function fieldsLoop ::
  "bool \<Rightarrow> error option \<Rightarrow> bool \<Rightarrow> string list \<Rightarrow> string
     \<Rightarrow> (string list \<times> error option) parsed" where
  "fieldsLoop trim e col0 fs cs =
     (case parseField trim e col0 cs of
        More \<Rightarrow> More
      | Fail x \<Rightarrow> Fail x
      | Done res r \<Rightarrow>
          (case snd (snd res) of
             AtComma \<Rightarrow>
               fieldsLoop trim e False (if fst res then fs @ [fst (snd res)] else fs) r
           | AtNewline \<Rightarrow> Done (if fst res then fs @ [fst (snd res)] else fs, None) r
           | AtEOF \<Rightarrow> Done (if fst res then fs @ [fst (snd res)] else fs, Some EOF) r))"
  by pat_completeness auto
termination
  by (relation "measure (\<lambda>(trim, e, col0, fs, cs). length cs)")
     (auto dest: parseField_progress)

declare fieldsLoop.simps [simp del]

lemma fieldsLoop_shorter:
  "fieldsLoop trim e col0 fs cs = Done res r \<Longrightarrow> r = [] \<or> length r < length cs"
proof (induction trim e col0 fs cs rule: fieldsLoop.induct)
  case (1 trim e col0 fs cs)
  show ?case
  proof (cases "parseField trim e col0 cs")
    case More
    with "1.prems" show ?thesis by (simp add: fieldsLoop.simps [of trim e col0 fs cs])
  next
    case (Fail x)
    with "1.prems" show ?thesis by (simp add: fieldsLoop.simps [of trim e col0 fs cs])
  next
    case (Done res' r')
    show ?thesis
    proof (cases "snd (snd res')")
      case AtComma
      with "1.prems" Done "1.IH" [OF Done AtComma] parseField_progress [OF Done]
      show ?thesis
        by (auto simp: fieldsLoop.simps [of trim e col0 fs cs])
    next
      case AtNewline
      with "1.prems" Done parseField_shorter [OF Done] show ?thesis
        by (auto simp: fieldsLoop.simps [of trim e col0 fs cs])
    next
      case AtEOF
      with "1.prems" Done parseField_shorter [OF Done] show ?thesis
        by (auto simp: fieldsLoop.simps [of trim e col0 fs cs])
    qed
  qed
qed

lemma fieldsLoop_More: "fieldsLoop trim e col0 fs cs = More \<Longrightarrow> e = None"
proof (induction trim e col0 fs cs rule: fieldsLoop.induct)
  case (1 trim e col0 fs cs)
  show ?case
  proof (cases "parseField trim e col0 cs")
    case More
    then show ?thesis by (rule parseField_More)
  next
    case (Fail x)
    with "1.prems" show ?thesis by (simp add: fieldsLoop.simps [of trim e col0 fs cs])
  next
    case (Done res' r')
    with "1.prems" "1.IH" [OF Done] show ?thesis
      by (cases "snd (snd res')") (auto simp: fieldsLoop.simps [of trim e col0 fs cs])
  qed
qed

definition parseRecord ::
  "bool \<Rightarrow> error option \<Rightarrow> string \<Rightarrow> (string list \<times> error option) parsed" where
  "parseRecord trim e cs =
     (case cs of [] \<Rightarrow> stop e | c # cs' \<Rightarrow> fieldsLoop trim e True [] cs)"

lemma parseRecord_shorter: "parseRecord trim e cs = Done res r \<Longrightarrow> length r < length cs"
  using fieldsLoop_shorter [of trim e True "[]" cs res r]
  by (cases cs) (auto simp: parseRecord_def stop_def split: option.splits)

lemma parseRecord_More: "parseRecord trim e cs = More \<Longrightarrow> e = None"
  using fieldsLoop_More [of trim e True "[]" cs]
  by (cases cs) (auto simp: parseRecord_def stop_def split: option.splits)

function readLoop :: "bool \<Rightarrow> error option \<Rightarrow> string \<Rightarrow> string list parsed" where
  "readLoop trim e cs =
     (case parseRecord trim e cs of
        More \<Rightarrow> More
      | Fail x \<Rightarrow> Fail x
      | Done res r \<Rightarrow>
          if fst res \<noteq> [] then Done (fst res) r
          else (case snd res of Some x \<Rightarrow> Fail x | None \<Rightarrow> readLoop trim e r))"
  by pat_completeness auto
termination
  by (relation "measure (\<lambda>(trim, e, cs). length cs)") (auto dest: parseRecord_shorter)

declare readLoop.simps [simp del]

lemma readLoop_shorter: "readLoop trim e cs = Done record r \<Longrightarrow> length r < length cs"
proof (induction trim e cs rule: readLoop.induct)
  case (1 trim e cs)
  show ?case
  proof (cases "parseRecord trim e cs")
    case More
    with "1.prems" show ?thesis by (simp add: readLoop.simps [of trim e cs])
  next
    case (Fail x)
    with "1.prems" show ?thesis by (simp add: readLoop.simps [of trim e cs])
  next
    case (Done res r')
    with "1.prems" "1.IH" [OF Done] parseRecord_shorter [OF Done] show ?thesis
      by (auto simp: readLoop.simps [of trim e cs] split: if_splits option.splits)
  qed
qed

lemma readLoop_More: "readLoop trim e cs = More \<Longrightarrow> e = None"
proof (induction trim e cs rule: readLoop.induct)
  case (1 trim e cs)
  show ?case
  proof (cases "parseRecord trim e cs")
    case More
    then show ?thesis by (rule parseRecord_More)
  next
    case (Fail x)
    with "1.prems" show ?thesis by (simp add: readLoop.simps [of trim e cs])
  next
    case (Done res r')
    with "1.prems" "1.IH" [OF Done] show ?thesis
      by (auto simp: readLoop.simps [of trim e cs] split: if_splits option.splits)
  qed
qed

record csv_Reader =
  bufReader :: bufio_Reader
  FieldsPerRecord :: int
  TrimLeadingSpace :: bool

definition csv_NewReader :: "handle \<Rightarrow> csv_Reader" where
  "csv_NewReader h = \<lparr>bufReader = bufio_NewReader h, FieldsPerRecord = 0, TrimLeadingSpace = False\<rparr>"

function csv_Read ::
  "csv_Reader \<Rightarrow> sizeTrackingReader
     \<Rightarrow> (string list \<times> error option) \<times> csv_Reader \<times> sizeTrackingReader" where
  "csv_Read c t =
     (case readLoop (TrimLeadingSpace c) (err (bufReader c)) (buf (bufReader c)) of
        More \<Rightarrow> csv_Read (c\<lparr>bufReader := fst (fill (bufReader c) t)\<rparr>) (snd (fill (bufReader c) t))
      | Fail x \<Rightarrow> (([], Some x), c, t)
      | Done record rest \<Rightarrow>
          (let c1 = c\<lparr>bufReader := (bufReader c)\<lparr>buf := rest\<rparr>\<rparr>
           in if FieldsPerRecord c1 > 0
              then (if int (length record) \<noteq> FieldsPerRecord c1
                    then ((record, Some (ParseError ''wrong number of fields in line'')), c1, t)
                    else ((record, None), c1, t))
              else if FieldsPerRecord c1 = 0
              then ((record, None), c1\<lparr>FieldsPerRecord := int (length record)\<rparr>, t)
              else ((record, None), c1, t)))"
  by pat_completeness auto
termination
proof (relation "measure (\<lambda>(c, t).
          length (pending (reader t)) + (if err (bufReader c) = None then 1 else 0))")
  show "wf (measure (\<lambda>(c, t).
          length (pending (reader t)) + (if err (bufReader c) = None then 1 else 0)))"
    by simp
next
  fix c :: csv_Reader and t :: sizeTrackingReader
  assume "readLoop (TrimLeadingSpace c) (err (bufReader c)) (buf (bufReader c)) = More"
  then have "err (bufReader c) = None"
    by (rule readLoop_More)
  then show "((c\<lparr>bufReader := fst (fill (bufReader c) t)\<rparr>, snd (fill (bufReader c) t)), (c, t))
      \<in> measure (\<lambda>(c, t).
          length (pending (reader t)) + (if err (bufReader c) = None then 1 else 0))"
    by (cases "rd (bufReader c)")
       (auto simp: fill_def io_Read_def sizeTrackingReader_Read_def source_Read_def
                   Let_def split: prod.splits)
qed

declare csv_Read.simps [simp del]

subsection \<open>The CSV reader\<close>

record CSVInputReader = InputReader +
  csvReader :: csv_Reader
  csvRecord :: "string list"

definition NewCSVInputReader :: "string list \<Rightarrow> source \<Rightarrow> int \<Rightarrow> CSVInputReader" where
  "NewCSVInputReader fs inp n =
     (let szCount = \<lparr>reader = inp, bytesRead = 0\<rparr>;
          csvReader0 = csv_NewReader Rd_szCount;
          csvReader1 = csvReader0\<lparr>FieldsPerRecord := - 1\<rparr>;
          csvReader2 = csvReader1\<lparr>TrimLeadingSpace := True\<rparr>
      in \<lparr>fieldList = fs, numProcessed = 0, numDecoders = n, sizeTracker = szCount,
          csvReader = csvReader2, csvRecord = []\<rparr>)"

definition CSVInputReader_ReadAndValidateHeader ::
  "(string list \<Rightarrow> error option) \<Rightarrow> CSVInputReader \<Rightarrow> error option \<times> CSVInputReader" where
  "CSVInputReader_ReadAndValidateHeader validate r =
     (let (res, c, t) = csv_Read (csvReader r) (sizeTracker r);
          r1 = r\<lparr>sizeTracker := t, csvReader := c\<rparr>
      in case snd res of
           Some e \<Rightarrow> (Some e, r1)
         | None \<Rightarrow> (let r2 = r1\<lparr>fieldList := fst res\<rparr> in (validate (fieldList r2), r2)))"

definition CSV_turn :: "CSVInputReader \<Rightarrow> CSVInputReader turn" where
  "CSV_turn r =
     (let (res, c, t) = csv_Read (csvReader r) (sizeTracker r);
          r1 = r\<lparr>sizeTracker := t, csvReader := c, csvRecord := fst res\<rparr>
      in case snd res of
           Some e \<Rightarrow>
             (if e \<noteq> EOF
              then (let r2 = r1\<lparr>numProcessed := numProcessed r1 + 1\<rparr>
                    in Halt e (Some (ReadError (numProcessed r2) e)) r2)
              else Halt e None r1)
         | None \<Rightarrow>
             Emit (CSVConvertibleDoc (fieldList r1) (csvRecord r1) (numProcessed r1))
                  (r1\<lparr>numProcessed := numProcessed r1 + 1\<rparr>))"

lemma csv_Read_progress:
  "snd (fst (csv_Read c t)) = None \<Longrightarrow>
   length (unread (bufReader (fst (snd (csv_Read c t)))) (snd (snd (csv_Read c t))))
     < length (unread (bufReader c) t)"
proof (induction c t rule: csv_Read.induct)
  case (1 c t)
  show ?case
  proof (cases "readLoop (TrimLeadingSpace c) (err (bufReader c)) (buf (bufReader c))")
    case More
    with "1.IH" [OF More] "1.prems" show ?thesis
      by (simp add: csv_Read.simps [of c t] fill_unread)
  next
    case (Fail x)
    with "1.prems" show ?thesis
      by (simp add: csv_Read.simps [of c t])
  next
    case (Done fs rest)
    with readLoop_shorter [OF Done] show ?thesis
      by (simp add: csv_Read.simps [of c t] unread_def Let_def)
  qed
qed

lemma CSV_turn_progress:
  "CSV_turn r = Emit d r' \<Longrightarrow>
   length (unread (bufReader (csvReader r')) (sizeTracker r'))
     < length (unread (bufReader (csvReader r)) (sizeTracker r))"
proof -
  obtain res c t where rs: "csv_Read (csvReader r) (sizeTracker r) = (res, c, t)"
    by (cases "csv_Read (csvReader r) (sizeTracker r)") auto
  assume "CSV_turn r = Emit d r'"
  with rs have "snd res = None" and "csvReader r' = c" and "sizeTracker r' = t"
    by (auto simp: CSV_turn_def Let_def split: option.splits if_splits)
  with rs csv_Read_progress [of "csvReader r" "sizeTracker r"]
  show ?thesis by simp
qed

function CSV_producer :: "CSVInputReader \<Rightarrow> CSVInputReader produced" where
  "CSV_producer r =
     (case CSV_turn r of
        Emit d r' \<Rightarrow> (let p = CSV_producer r' in p\<lparr>records := d # records p\<rparr>)
      | Halt e sent r' \<Rightarrow> \<lparr>records = [], sentErr = sent, lastErr = e, endState = r'\<rparr>)"
  by pat_completeness auto
termination
  by (relation "measure (\<lambda>r. length (unread (bufReader (csvReader r)) (sizeTracker r)))")
     (auto dest: CSV_turn_progress)

declare CSV_producer.simps [simp del]

subsection \<open>StreamDocument\<close>

text \<open>
  A call of \<^verbatim>\<open>StreamDocument\<close>, in a run where every record the producer goroutine
  sends is received: the goroutine runs to its return, \<^verbatim>\<open>streamDocuments\<close> is given the
  records in the order they were sent, and its result is sent on the error channel.
  \<open>errChan\<close> lists the values sent on the error channel, the goroutine's own send
  first: it comes before \<^verbatim>\<open>close(csvRecordChan)\<close>. \<^verbatim>\<open>streamDocuments\<close> is not under
  \<^verbatim>\<open>src/\<close>; it is the parameter \<open>streamDocs\<close>, which returns the documents sent on
  \<^verbatim>\<open>readDocChan\<close> and its error.
\<close>

record ('d, 'r) streamed =
  readDocChan :: "'d list"
  errChan :: "error option list"
  readerAfter :: 'r

definition CSVInputReader_StreamDocument ::
  "(bool \<Rightarrow> int \<Rightarrow> ConvertibleDoc list \<Rightarrow> 'd list \<times> error option)
     \<Rightarrow> bool \<Rightarrow> CSVInputReader \<Rightarrow> ('d, CSVInputReader) streamed" where
  "CSVInputReader_StreamDocument streamDocs ordered r =
     (let p = CSV_producer r;
          (docs, e) = streamDocs ordered (numDecoders r) (records p)
      in \<lparr>readDocChan = docs,
          errChan = (case sentErr p of None \<Rightarrow> [] | Some x \<Rightarrow> [Some x]) @ [e],
          readerAfter = endState p\<rparr>)"

definition TSVInputReader_StreamDocument ::
  "(bool \<Rightarrow> int \<Rightarrow> ConvertibleDoc list \<Rightarrow> 'd list \<times> error option)
     \<Rightarrow> bool \<Rightarrow> TSVInputReader \<Rightarrow> ('d, TSVInputReader) streamed" where
  "TSVInputReader_StreamDocument streamDocs ordered r =
     (let p = TSV_producer r;
          (docs, e) = streamDocs ordered (numDecoders r) (records p)
      in \<lparr>readDocChan = docs,
          errChan = (case sentErr p of None \<Rightarrow> [] | Some x \<Rightarrow> [Some x]) @ [e],
          readerAfter = endState p\<rparr>)"


text \<open>
  Modelled from the spec: \<^verbatim>\<open>validateReaderFields\<close> is not under \<^verbatim>\<open>src/\<close>. The Field
  List must be non-empty and contain no duplicate or empty names (section 3); a
  violation is a HeaderError.
\<close>

definition validateReaderFields :: "string list \<Rightarrow> error option" where
  "validateReaderFields fs =
     (if fs = [] then Some (HeaderError ''no fields'')
      else if [] \<in> set fs then Some (HeaderError ''empty field name'')
      else if \<not> distinct fs then Some (HeaderError ''duplicate field name'')
      else None)"

subsection \<open>The tokenization of a TSV line, in the words of the specification\<close>

text \<open>
  TSV framing as the specification words it: the trailing line terminators (carriage
  return and line feed) are stripped, then the tokens are the pieces between the
  occurrences of the single-character separator.
\<close>

definition strip_line_terminators :: "string \<Rightarrow> string" where
  "strip_line_terminators s = rev (dropWhile (\<lambda>c. c = CHR 0x0D \<or> c = CHR 0x0A) (rev s))"

fun split_on :: "char \<Rightarrow> string \<Rightarrow> string list" where
  "split_on sep [] = [[]]"
| "split_on sep (c # cs) =
     (if c = sep then [] # split_on sep cs
      else (case split_on sep cs of p # ps \<Rightarrow> (c # p) # ps | [] \<Rightarrow> [[c]]))"

lemma split_on_not_Nil: "split_on sep s \<noteq> []"
  by (induction s) (auto split: list.splits)

lemma genSplit_single:
  "genSplit [sep] piece s = (piece @ hd (split_on sep s)) # tl (split_on sep s)"
proof (induction s arbitrary: piece)
  case Nil
  then show ?case by simp
next
  case (Cons c cs)
  show ?case
  proof (cases "c = sep")
    case True
    with Cons [of "[]"] split_on_not_Nil [of sep cs] show ?thesis
      by (cases "split_on sep cs") auto
  next
    case False
    with Cons [of "piece @ [c]"] split_on_not_Nil [of sep cs] show ?thesis
      by (cases "split_on sep cs") auto
  qed
qed

lemma Split_single: "Split s [sep] = split_on sep s"
  using genSplit_single [of sep "[]" s] split_on_not_Nil [of sep s]
  by (cases "split_on sep s") (auto simp: Split_def)

lemma TrimRight_CRLF: "TrimRight s [CHR 0x0D, CHR 0x0A] = strip_line_terminators s"
  by (simp add: TrimRight_def strip_line_terminators_def)

text \<open>
  C6. Converting a TSV record with data \<open>d\<close> hands to \<open>tokensToBSON\<close> the field list,
  the tokens of \<open>d\<close> (trailing carriage returns and line feeds stripped first, the rest
  split at every tab) and the index.
\<close>

theorem C6_TSV_Convert_tokenizes:
  "Convert tokensToBSON (TSVConvertibleDoc fs d i)
     = tokensToBSON fs (split_on (CHR 0x09) (strip_line_terminators d)) i"
  by (simp add: tokenSeparator_def Split_single TrimRight_CRLF)

theorem C6_TSV_Convert_tokenizes_witness:
  "Convert (\<lambda>fs ts i. Inr (zip fs ts))
     (TSVConvertibleDoc [''a'', ''b''] [CHR ''1'', CHR 0x09, CHR ''2'', CHR 0x0D, CHR 0x0A] 0)
     = (Inr [(''a'', ''1''), (''b'', ''2'')] :: error + (string \<times> string) list)"
  using C6_TSV_Convert_tokenizes
          [of "\<lambda>fs ts i. (Inr (zip fs ts) :: error + (string \<times> string) list)" "[''a'', ''b'']"
              "[CHR ''1'', CHR 0x09, CHR ''2'', CHR 0x0D, CHR 0x0A]" 0]
  by (simp add: strip_line_terminators_def)

subsection \<open>One pass through a producer loop\<close>

lemma TSV_turn_Emit:
  assumes "TSV_turn r = Emit d r'"
  shows "d = TSVConvertibleDoc (fieldList r) (tsvRecord r') (numProcessed r)"
    and "numProcessed r' = numProcessed r + 1"
    and "fieldList r' = fieldList r"
    and "numDecoders r' = numDecoders r"
    and "snd (fst (ReadString entryDelimiter (tsvReader r) (sizeTracker r))) = None"
    and "tsvRecord r' = fst (fst (ReadString entryDelimiter (tsvReader r) (sizeTracker r)))"
    and "tsvReader r' = fst (snd (ReadString entryDelimiter (tsvReader r) (sizeTracker r)))"
    and "sizeTracker r' = snd (snd (ReadString entryDelimiter (tsvReader r) (sizeTracker r)))"
  using assms
  by (auto simp: TSV_turn_def Let_def split: prod.splits option.splits if_splits)

lemma TSV_turn_Halt:
  assumes "TSV_turn r = Halt e sent r'"
  shows "sent = (if e = EOF then None else Some (ReadError (numProcessed r + 1) e))"
    and "snd (fst (ReadString entryDelimiter (tsvReader r) (sizeTracker r))) = Some e"
    and "tsvRecord r' = fst (fst (ReadString entryDelimiter (tsvReader r) (sizeTracker r)))"
    and "tsvReader r' = fst (snd (ReadString entryDelimiter (tsvReader r) (sizeTracker r)))"
    and "sizeTracker r' = snd (snd (ReadString entryDelimiter (tsvReader r) (sizeTracker r)))"
  using assms
  by (auto simp: TSV_turn_def Let_def split: prod.splits option.splits if_splits)

lemma CSV_turn_Emit:
  assumes "CSV_turn r = Emit d r'"
  shows "d = CSVConvertibleDoc (fieldList r) (csvRecord r') (numProcessed r)"
    and "numProcessed r' = numProcessed r + 1"
    and "fieldList r' = fieldList r"
    and "numDecoders r' = numDecoders r"
    and "snd (fst (csv_Read (csvReader r) (sizeTracker r))) = None"
    and "csvRecord r' = fst (fst (csv_Read (csvReader r) (sizeTracker r)))"
    and "csvReader r' = fst (snd (csv_Read (csvReader r) (sizeTracker r)))"
    and "sizeTracker r' = snd (snd (csv_Read (csvReader r) (sizeTracker r)))"
  using assms
  by (auto simp: CSV_turn_def Let_def split: prod.splits option.splits if_splits)

lemma CSV_turn_Halt:
  assumes "CSV_turn r = Halt e sent r'"
  shows "sent = (if e = EOF then None else Some (ReadError (numProcessed r + 1) e))"
    and "snd (fst (csv_Read (csvReader r) (sizeTracker r))) = Some e"
    and "csvRecord r' = fst (fst (csv_Read (csvReader r) (sizeTracker r)))"
    and "csvReader r' = fst (snd (csv_Read (csvReader r) (sizeTracker r)))"
    and "sizeTracker r' = snd (snd (csv_Read (csvReader r) (sizeTracker r)))"
  using assms
  by (auto simp: CSV_turn_def Let_def split: prod.splits option.splits if_splits)

subsection \<open>Sequence indices and the read error of a producer\<close>

lemma TSV_producer_indices:
  "map doc_index (records (TSV_producer r))
     = map (\<lambda>k. numProcessed r + of_nat k) [0..<length (records (TSV_producer r))]"
proof (induction r rule: TSV_producer.induct)
  case (1 r)
  show ?case
  proof (cases "TSV_turn r")
    case (Emit d r')
    have "map (\<lambda>k. numProcessed r + of_nat k) [0..<Suc (length (records (TSV_producer r')))]
        = numProcessed r # map (\<lambda>k. numProcessed r + 1 + of_nat k)
                              [0..<length (records (TSV_producer r'))]"
      by (simp add: upt_conv_Cons map_Suc_upt [symmetric] del: upt_Suc)
    with "1.IH" [OF Emit] TSV_turn_Emit(1,2) [OF Emit] Emit show ?thesis
      by (simp add: TSV_producer.simps [of r] Let_def)
  next
    case (Halt e sent r')
    then show ?thesis by (simp add: TSV_producer.simps [of r])
  qed
qed

lemma CSV_producer_indices:
  "map doc_index (records (CSV_producer r))
     = map (\<lambda>k. numProcessed r + of_nat k) [0..<length (records (CSV_producer r))]"
proof (induction r rule: CSV_producer.induct)
  case (1 r)
  show ?case
  proof (cases "CSV_turn r")
    case (Emit d r')
    have "map (\<lambda>k. numProcessed r + of_nat k) [0..<Suc (length (records (CSV_producer r')))]
        = numProcessed r # map (\<lambda>k. numProcessed r + 1 + of_nat k)
                              [0..<length (records (CSV_producer r'))]"
      by (simp add: upt_conv_Cons map_Suc_upt [symmetric] del: upt_Suc)
    with "1.IH" [OF Emit] CSV_turn_Emit(1,2) [OF Emit] Emit show ?thesis
      by (simp add: CSV_producer.simps [of r] Let_def)
  next
    case (Halt e sent r')
    then show ?thesis by (simp add: CSV_producer.simps [of r])
  qed
qed

lemma TSV_producer_sentErr:
  "sentErr (TSV_producer r)
     = (if lastErr (TSV_producer r) = EOF then None
        else Some (ReadError (numProcessed r + of_nat (length (records (TSV_producer r))) + 1)
                     (lastErr (TSV_producer r))))"
proof (induction r rule: TSV_producer.induct)
  case (1 r)
  show ?case
  proof (cases "TSV_turn r")
    case (Emit d r')
    with "1.IH" [OF Emit] TSV_turn_Emit(2) [OF Emit] show ?thesis
      by (simp add: TSV_producer.simps [of r] Let_def add.assoc)
  next
    case (Halt e sent r')
    with TSV_turn_Halt(1) [OF Halt] show ?thesis
      by (simp add: TSV_producer.simps [of r])
  qed
qed


subsection \<open>The TSV producer on the lines of its source\<close>

text \<open>
  A source text made of complete lines (each ended by the entry delimiter), and the
  records the TSV producer makes of them, numbered from \<open>i\<close>.
\<close>

definition tsv_lines :: "string list \<Rightarrow> string" where
  "tsv_lines ls = concat (map (\<lambda>l. l @ [entryDelimiter]) ls)"

fun tsv_docs :: "string list \<Rightarrow> 64 word \<Rightarrow> string list \<Rightarrow> ConvertibleDoc list" where
  "tsv_docs fs i [] = []"
| "tsv_docs fs i (l # ls) = TSVConvertibleDoc fs (l @ [entryDelimiter]) i # tsv_docs fs (i + 1) ls"

lemma length_tsv_docs: "length (tsv_docs fs i ls) = length ls"
  by (induction ls arbitrary: i) auto

lemma takeWhile_until: "d \<notin> set l \<Longrightarrow> takeWhile (\<lambda>c. c \<noteq> d) (l @ d # r) = l"
  by (induction l) auto

lemma dropWhile_until: "d \<notin> set l \<Longrightarrow> dropWhile (\<lambda>c. c \<noteq> d) (l @ d # r) = d # r"
  by (induction l) auto

lemma TSV_producer_lines:
  assumes "synced (tsvReader r) (sizeTracker r)"
    and "unread (tsvReader r) (sizeTracker r) = tsv_lines ls @ rest"
    and "\<forall>l \<in> set ls. entryDelimiter \<notin> set l"
    and "entryDelimiter \<notin> set rest"
  shows "records (TSV_producer r) = tsv_docs (fieldList r) (numProcessed r) ls
       \<and> lastErr (TSV_producer r) = ending (reader (sizeTracker r))
       \<and> tsvRecord (endState (TSV_producer r)) = rest"
  using assms
proof (induction ls arbitrary: r)
  case Nil
  let ?RS = "ReadString entryDelimiter (tsvReader r) (sizeTracker r)"
  from Nil have nd: "entryDelimiter \<notin> set (unread (tsvReader r) (sizeTracker r))"
    by (simp add: tsv_lines_def)
  from ReadString_missing [OF Nil.prems(1) nd] Nil.prems(2)
  have rs: "fst ?RS = (rest, Some (ending (reader (sizeTracker r))))"
    by (simp add: tsv_lines_def)
  show ?case
  proof (cases "TSV_turn r")
    case (Emit d r')
    with TSV_turn_Emit(5) [OF Emit] rs show ?thesis by simp
  next
    case (Halt e sent r')
    with TSV_turn_Halt(2,3) [OF Halt] rs show ?thesis
      by (simp add: TSV_producer.simps [of r])
  qed
next
  case (Cons l ls)
  let ?RS = "ReadString entryDelimiter (tsvReader r) (sizeTracker r)"
  let ?u = "unread (tsvReader r) (sizeTracker r)"
  from Cons.prems have u: "?u = l @ entryDelimiter # (tsv_lines ls @ rest)"
    and l: "entryDelimiter \<notin> set l"
    by (simp_all add: tsv_lines_def)
  then have d: "entryDelimiter \<in> set ?u" by simp
  from l have tw: "takeWhile (\<lambda>c. c \<noteq> entryDelimiter) ?u = l"
    and dw: "dropWhile (\<lambda>c. c \<noteq> entryDelimiter) ?u = entryDelimiter # (tsv_lines ls @ rest)"
    unfolding u by (simp_all add: takeWhile_until dropWhile_until)
  from ReadString_found [OF Cons.prems(1) d] tw dw
  have rs: "fst ?RS = (l @ [entryDelimiter], None)"
    and u': "unread (fst (snd ?RS)) (snd (snd ?RS)) = tsv_lines ls @ rest"
    and s': "synced (fst (snd ?RS)) (snd (snd ?RS))"
    by simp_all
  show ?case
  proof (cases "TSV_turn r")
    case (Halt e sent r')
    with TSV_turn_Halt(2) [OF Halt] rs show ?thesis by simp
  next
    case (Emit d r')
    note E = TSV_turn_Emit [OF Emit]
    have "synced (tsvReader r') (sizeTracker r')"
      and "unread (tsvReader r') (sizeTracker r') = tsv_lines ls @ rest"
      using E(7,8) u' s' by simp_all
    moreover have "\<forall>l \<in> set ls. entryDelimiter \<notin> set l"
      using Cons.prems(3) by simp
    ultimately have IH: "records (TSV_producer r') = tsv_docs (fieldList r') (numProcessed r') ls
       \<and> lastErr (TSV_producer r') = ending (reader (sizeTracker r'))
       \<and> tsvRecord (endState (TSV_producer r')) = rest"
      using Cons.IH [of r'] Cons.prems(4) by blast
    have "ending (reader (sizeTracker r')) = ending (reader (sizeTracker r))"
      using E(8) by (simp add: ReadString_ending)
    with IH E(1,2,3,6) rs Emit show ?thesis
      by (simp add: TSV_producer.simps [of r] Let_def)
  qed
qed

lemma NewTSVInputReader_start:
  "synced (tsvReader (NewTSVInputReader fs inp n)) (sizeTracker (NewTSVInputReader fs inp n))"
  "unread (tsvReader (NewTSVInputReader fs inp n)) (sizeTracker (NewTSVInputReader fs inp n))
     = pending inp"
  "fieldList (NewTSVInputReader fs inp n) = fs"
  "numProcessed (NewTSVInputReader fs inp n) = 0"
  "numDecoders (NewTSVInputReader fs inp n) = n"
  "reader (sizeTracker (NewTSVInputReader fs inp n)) = inp"
  "rd (tsvReader (NewTSVInputReader fs inp n)) = Rd_in"
  "bytesRead (sizeTracker (NewTSVInputReader fs inp n)) = 0"
  by (simp_all add: NewTSVInputReader_def synced_def unread_def bufio_NewReader_def Let_def)

subsection \<open>Evaluating the readers on a concrete source\<close>

named_theorems run \<open>equations that evaluate the readers on a concrete source\<close>

lemmas [run] =
  NewTSVInputReader_def NewCSVInputReader_def csv_NewReader_def bufio_NewReader_def
  TSV_producer.simps CSV_producer.simps TSV_turn_def CSV_turn_def
  TSVInputReader_ReadAndValidateHeader_def CSVInputReader_ReadAndValidateHeader_def
  TSVInputReader_StreamDocument_def CSVInputReader_StreamDocument_def
  ReadString.simps csv_Read.simps readLoop.simps parseRecord_def fieldsLoop.simps
  parseField.simps unquoted.simps quoted.simps readRune_def stop_def isSpace_def
  fill_def io_Read_def sizeTrackingReader_Read_def source_Read_def Size_def
  entryDelimiter_def tokenSeparator_def Split_def TrimRight_def validateReaderFields_def
  Let_def

lemma NewCSVInputReader_start:
  "fieldList (NewCSVInputReader fs inp n) = fs"
  "numProcessed (NewCSVInputReader fs inp n) = 0"
  "numDecoders (NewCSVInputReader fs inp n) = n"
  "reader (sizeTracker (NewCSVInputReader fs inp n)) = inp"
  "rd (bufReader (csvReader (NewCSVInputReader fs inp n))) = Rd_szCount"
  "bytesRead (sizeTracker (NewCSVInputReader fs inp n)) = 0"
  "buf (bufReader (csvReader (NewCSVInputReader fs inp n))) = []"
  "err (bufReader (csvReader (NewCSVInputReader fs inp n))) = None"
  by (simp_all add: NewCSVInputReader_def csv_NewReader_def bufio_NewReader_def Let_def)

lemma ReadAndValidateHeader_numProcessed:
  "numProcessed (snd (CSVInputReader_ReadAndValidateHeader validate rc)) = numProcessed rc"
  "numProcessed (snd (TSVInputReader_ReadAndValidateHeader validate rt)) = numProcessed rt"
  by (simp_all add: CSVInputReader_ReadAndValidateHeader_def
        TSVInputReader_ReadAndValidateHeader_def Let_def split: prod.splits option.splits)

text \<open>
  C4. The sequence indices of the records a reader produces start at 0 and go up by
  one from each record to the next, in the order the records are sent: the record at
  position \<open>k\<close> (counted from 0) carries the index \<open>k\<close>, as a \<^verbatim>\<open>uint64\<close>. This holds
  for the CSV and the TSV reader, fresh from their constructor or after the header has
  been read.
\<close>

theorem C4_sequence_indices:
  "map doc_index (records (CSV_producer (NewCSVInputReader fs inp n)))
     = map of_nat [0..<length (records (CSV_producer (NewCSVInputReader fs inp n)))]
   \<and> map doc_index (records (CSV_producer
       (snd (CSVInputReader_ReadAndValidateHeader validate (NewCSVInputReader fs inp n)))))
     = map of_nat [0..<length (records (CSV_producer
         (snd (CSVInputReader_ReadAndValidateHeader validate (NewCSVInputReader fs inp n)))))]
   \<and> map doc_index (records (TSV_producer (NewTSVInputReader fs inp n)))
     = map of_nat [0..<length (records (TSV_producer (NewTSVInputReader fs inp n)))]
   \<and> map doc_index (records (TSV_producer
       (snd (TSVInputReader_ReadAndValidateHeader validate (NewTSVInputReader fs inp n)))))
     = map of_nat [0..<length (records (TSV_producer
         (snd (TSVInputReader_ReadAndValidateHeader validate (NewTSVInputReader fs inp n)))))]"
  by (simp add: CSV_producer_indices TSV_producer_indices
        ReadAndValidateHeader_numProcessed NewCSVInputReader_start NewTSVInputReader_start)

definition two_lines :: source where
  "two_lines = \<lparr>pending = [CHR ''x'', CHR 0x0A, CHR ''y'', CHR 0x0A], ending = EOF\<rparr>"

lemma two_lines_TSV_records:
  "records (TSV_producer (NewTSVInputReader [''a''] two_lines 1))
     = [TSVConvertibleDoc [''a''] [CHR ''x'', CHR 0x0A] 0,
        TSVConvertibleDoc [''a''] [CHR ''y'', CHR 0x0A] 1]"
  by (simp add: two_lines_def run)

theorem C4_sequence_indices_witness:
  "map doc_index (records (TSV_producer (NewTSVInputReader [''a''] two_lines 1))) = [0, 1]"
  using C4_sequence_indices [of "[''a'']" two_lines 1]
  by (simp add: two_lines_TSV_records)



lemma ReadString_synced:
  assumes "synced b t"
  shows "synced (fst (snd (ReadString delim b t))) (snd (snd (ReadString delim b t)))"
proof (cases "delim \<in> set (unread b t)")
  case True
  from ReadString_found [OF assms True] show ?thesis by simp
next
  case False
  from ReadString_missing [OF assms False] show ?thesis by simp
qed







text \<open>
  C9. When the source of a TSV reader ends, by end of input, in a non-empty line that
  has no entry delimiter, the producer sends one record for each complete line before
  it and none for that last line; it sends nothing on the error channel, and returns
  (closing the record channel) with the partial line left in \<^verbatim>\<open>tsvRecord\<close>.
\<close>

theorem C9_TSV_unterminated_last_line:
  assumes "\<forall>l \<in> set ls. entryDelimiter \<notin> set l"
    and "partial \<noteq> []" and "entryDelimiter \<notin> set partial"
  shows "records (TSV_producer
            (NewTSVInputReader fs \<lparr>pending = tsv_lines ls @ partial, ending = EOF\<rparr> n))
           = tsv_docs fs 0 ls
       \<and> sentErr (TSV_producer
            (NewTSVInputReader fs \<lparr>pending = tsv_lines ls @ partial, ending = EOF\<rparr> n)) = None
       \<and> tsvRecord (endState (TSV_producer
            (NewTSVInputReader fs \<lparr>pending = tsv_lines ls @ partial, ending = EOF\<rparr> n)))
           = partial"
proof -
  let ?inp = "\<lparr>pending = tsv_lines ls @ partial, ending = EOF\<rparr>"
  let ?r = "NewTSVInputReader fs ?inp n"
  have "unread (tsvReader ?r) (sizeTracker ?r) = tsv_lines ls @ partial"
    by (simp add: NewTSVInputReader_start)
  from TSV_producer_lines [OF NewTSVInputReader_start(1) this assms(1,3)]
  have "records (TSV_producer ?r) = tsv_docs fs 0 ls"
    and "lastErr (TSV_producer ?r) = EOF"
    and "tsvRecord (endState (TSV_producer ?r)) = partial"
    by (simp_all add: NewTSVInputReader_start)
  with TSV_producer_sentErr [of ?r] show ?thesis by simp
qed

theorem C9_TSV_unterminated_last_line_witness:
  "records (TSV_producer (NewTSVInputReader [''a'']
       \<lparr>pending = [CHR ''x'', CHR 0x0A, CHR ''y'', CHR 0x0A, CHR ''z''], ending = EOF\<rparr> 1))
     = [TSVConvertibleDoc [''a''] [CHR ''x'', CHR 0x0A] 0,
        TSVConvertibleDoc [''a''] [CHR ''y'', CHR 0x0A] 1]
   \<and> sentErr (TSV_producer (NewTSVInputReader [''a'']
       \<lparr>pending = [CHR ''x'', CHR 0x0A, CHR ''y'', CHR 0x0A, CHR ''z''], ending = EOF\<rparr> 1))
     = None"
  using C9_TSV_unterminated_last_line [of "[''x'', ''y'']" "''z''" "[''a'']" 1]
  by (simp add: tsv_lines_def entryDelimiter_def)

subsection \<open>Reading the header\<close>

lemma foldl_append_map: "foldl (\<lambda>fs x. fs @ [g x]) a xs = a @ map g xs"
  by (induction xs arbitrary: a) auto

text \<open>The field names a TSV header line yields: its tab-separated pieces, each stripped.\<close>

definition tsv_header_names :: "string \<Rightarrow> string list" where
  "tsv_header_names header = map strip_line_terminators (split_on (CHR 0x09) header)"

lemma TSV_header_result:
  "TSVInputReader_ReadAndValidateHeader validate r =
     (let RS = ReadString entryDelimiter (tsvReader r) (sizeTracker r);
          r1 = r\<lparr>sizeTracker := snd (snd RS), tsvReader := fst (snd RS)\<rparr>
      in case snd (fst RS) of
           Some e \<Rightarrow> (Some e, r1)
         | None \<Rightarrow> (validate (fieldList r @ tsv_header_names (fst (fst RS))),
                     r1\<lparr>fieldList := fieldList r @ tsv_header_names (fst (fst RS))\<rparr>))"
  by (simp add: TSVInputReader_ReadAndValidateHeader_def Let_def foldl_append_map
        tsv_header_names_def tokenSeparator_def Split_single TrimRight_CRLF
      split: prod.splits option.splits)

lemma CSV_header_result:
  "CSVInputReader_ReadAndValidateHeader validate r =
     (let RS = csv_Read (csvReader r) (sizeTracker r);
          r1 = r\<lparr>sizeTracker := snd (snd RS), csvReader := fst (snd RS)\<rparr>
      in case snd (fst RS) of
           Some e \<Rightarrow> (Some e, r1)
         | None \<Rightarrow> (validate (fst (fst RS)), r1\<lparr>fieldList := fst (fst RS)\<rparr>))"
  by (simp add: CSVInputReader_ReadAndValidateHeader_def Let_def
      split: prod.splits option.splits)

lemma ReadString_first_line:
  assumes "entryDelimiter \<notin> set l"
  shows "fst (ReadString entryDelimiter (tsvReader (NewTSVInputReader fs
            \<lparr>pending = l @ entryDelimiter # rest, ending = e\<rparr> n))
          (sizeTracker (NewTSVInputReader fs
            \<lparr>pending = l @ entryDelimiter # rest, ending = e\<rparr> n)))
         = (l @ [entryDelimiter], None)"
proof -
  let ?r = "NewTSVInputReader fs \<lparr>pending = l @ entryDelimiter # rest, ending = e\<rparr> n"
  have u: "unread (tsvReader ?r) (sizeTracker ?r) = l @ entryDelimiter # rest"
    by (simp add: NewTSVInputReader_start)
  then have "entryDelimiter \<in> set (unread (tsvReader ?r) (sizeTracker ?r))"
    by simp
  from ReadString_found [OF NewTSVInputReader_start(1) this] assms show ?thesis
    unfolding u by (simp add: takeWhile_until)
qed

text \<open>
  C10. The TSV header function appends: after it has read a header line, the field list
  is the list the reader was constructed with followed by the names of the header (the
  tab-separated pieces of the line, each stripped of trailing carriage returns and line
  feeds), whatever the validation then says. The CSV header function replaces: when its
  read succeeds, the field list is the record read, whatever list the reader was
  constructed with.
\<close>

theorem C10_TSV_header_appends:
  "(entryDelimiter \<notin> set l \<longrightarrow>
      fieldList (snd (TSVInputReader_ReadAndValidateHeader validate
         (NewTSVInputReader fs \<lparr>pending = l @ entryDelimiter # rest, ending = e\<rparr> n)))
        = fs @ tsv_header_names (l @ [entryDelimiter]))
   \<and> (snd (fst (csv_Read (csvReader (NewCSVInputReader fs inp n))
                   (sizeTracker (NewCSVInputReader fs inp n)))) = None \<longrightarrow>
      fieldList (snd (CSVInputReader_ReadAndValidateHeader validate
         (NewCSVInputReader fs inp n)))
        = fst (fst (csv_Read (csvReader (NewCSVInputReader fs inp n))
                   (sizeTracker (NewCSVInputReader fs inp n)))))"
proof (intro conjI impI)
  assume "entryDelimiter \<notin> set l"
  from ReadString_first_line [OF this, of fs rest e n]
  show "fieldList (snd (TSVInputReader_ReadAndValidateHeader validate
         (NewTSVInputReader fs \<lparr>pending = l @ entryDelimiter # rest, ending = e\<rparr> n)))
        = fs @ tsv_header_names (l @ [entryDelimiter])"
    by (simp add: TSV_header_result Let_def NewTSVInputReader_start)
next
  assume "snd (fst (csv_Read (csvReader (NewCSVInputReader fs inp n))
                   (sizeTracker (NewCSVInputReader fs inp n)))) = None"
  then show "fieldList (snd (CSVInputReader_ReadAndValidateHeader validate
         (NewCSVInputReader fs inp n)))
        = fst (fst (csv_Read (csvReader (NewCSVInputReader fs inp n))
                   (sizeTracker (NewCSVInputReader fs inp n))))"
    by (simp add: CSV_header_result Let_def)
qed

definition header_ab_tsv :: source where
  "header_ab_tsv = \<lparr>pending = [CHR ''a'', CHR 0x09, CHR ''b'', CHR 0x0A, CHR ''1''],
                     ending = EOF\<rparr>"

definition header_ab_csv :: source where
  "header_ab_csv = \<lparr>pending = [CHR ''a'', CHR '','', CHR ''b'', CHR 0x0A, CHR ''1''],
                     ending = EOF\<rparr>"

lemma header_ab_csv_Read:
  "fst (csv_Read (csvReader (NewCSVInputReader [''x''] header_ab_csv 1))
          (sizeTracker (NewCSVInputReader [''x''] header_ab_csv 1))) = ([''a'', ''b''], None)"
  by (simp add: header_ab_csv_def run)

theorem C10_TSV_header_appends_witness:
  "fieldList (snd (TSVInputReader_ReadAndValidateHeader validateReaderFields
      (NewTSVInputReader [''x''] header_ab_tsv 1))) = [''x'', ''a'', ''b'']
   \<and> fieldList (snd (CSVInputReader_ReadAndValidateHeader validateReaderFields
      (NewCSVInputReader [''x''] header_ab_csv 1))) = [''a'', ''b'']"
  using C10_TSV_header_appends [of "''a'' @ [CHR 0x09] @ ''b''" validateReaderFields "[''x'']"
          "''1''" EOF 1 header_ab_csv]
  by (simp add: header_ab_csv_Read)
     (simp add: header_ab_tsv_def entryDelimiter_def tsv_header_names_def
        strip_line_terminators_def)

lemma validateReaderFields_None:
  "validateReaderFields fs = None \<longleftrightarrow> fs \<noteq> [] \<and> [] \<notin> set fs \<and> distinct fs"
  by (simp add: validateReaderFields_def)

lemma ReadString_no_line:
  assumes "entryDelimiter \<notin> set (pending inp)"
  shows "fst (ReadString entryDelimiter (tsvReader (NewTSVInputReader fs inp n))
               (sizeTracker (NewTSVInputReader fs inp n)))
         = (pending inp, Some (ending inp))"
proof -
  let ?r = "NewTSVInputReader fs inp n"
  have "entryDelimiter \<notin> set (unread (tsvReader ?r) (sizeTracker ?r))"
    using assms by (simp add: NewTSVInputReader_start)
  from ReadString_missing [OF NewTSVInputReader_start(1) this] show ?thesis
    by (simp add: NewTSVInputReader_start)
qed

text \<open>
  C8. \<^verbatim>\<open>ReadAndValidateHeader\<close> returns its error to the caller; it sends nothing on any
  channel and leaves \<^verbatim>\<open>numProcessed\<close> alone, so no record has been streamed. For both
  readers: when the read of the header fails (a malformed CSV header, an I/O failure, a
  TSV source without a complete line), that error is returned; when the header names
  contain a duplicate, the validation (modelled from the specification) rejects them
  and an error is returned; when no error is returned, the field list comes from the
  header: it is the header record for CSV, and ends with the header names for TSV.
\<close>

theorem C8_header_errors_returned:
  "(snd (fst (csv_Read (csvReader rc) (sizeTracker rc))) = Some e \<longrightarrow>
      fst (CSVInputReader_ReadAndValidateHeader validate rc) = Some e)
   \<and> (snd (fst (csv_Read (csvReader rc) (sizeTracker rc))) = None
        \<and> \<not> distinct (fst (fst (csv_Read (csvReader rc) (sizeTracker rc)))) \<longrightarrow>
      fst (CSVInputReader_ReadAndValidateHeader validateReaderFields rc) \<noteq> None)
   \<and> (fst (CSVInputReader_ReadAndValidateHeader validate rc) = None \<longrightarrow>
      fieldList (snd (CSVInputReader_ReadAndValidateHeader validate rc))
        = fst (fst (csv_Read (csvReader rc) (sizeTracker rc))))
   \<and> numProcessed (snd (CSVInputReader_ReadAndValidateHeader validate rc)) = numProcessed rc
   \<and> (snd (fst (ReadString entryDelimiter (tsvReader rt) (sizeTracker rt))) = Some e \<longrightarrow>
      fst (TSVInputReader_ReadAndValidateHeader validate rt) = Some e)
   \<and> (snd (fst (ReadString entryDelimiter (tsvReader rt) (sizeTracker rt))) = None
        \<and> \<not> distinct (tsv_header_names
               (fst (fst (ReadString entryDelimiter (tsvReader rt) (sizeTracker rt))))) \<longrightarrow>
      fst (TSVInputReader_ReadAndValidateHeader validateReaderFields rt) \<noteq> None)
   \<and> (fst (TSVInputReader_ReadAndValidateHeader validate rt) = None \<longrightarrow>
      fieldList (snd (TSVInputReader_ReadAndValidateHeader validate rt))
        = fieldList rt @ tsv_header_names
            (fst (fst (ReadString entryDelimiter (tsvReader rt) (sizeTracker rt)))))
   \<and> numProcessed (snd (TSVInputReader_ReadAndValidateHeader validate rt)) = numProcessed rt
   \<and> (entryDelimiter \<notin> set (pending inp) \<longrightarrow>
      fst (TSVInputReader_ReadAndValidateHeader validate (NewTSVInputReader fs inp n))
        = Some (ending inp))"
proof -
  have csv: "(snd (fst (csv_Read (csvReader rc) (sizeTracker rc))) = Some e \<longrightarrow>
      fst (CSVInputReader_ReadAndValidateHeader validate rc) = Some e)
   \<and> (snd (fst (csv_Read (csvReader rc) (sizeTracker rc))) = None
        \<and> \<not> distinct (fst (fst (csv_Read (csvReader rc) (sizeTracker rc)))) \<longrightarrow>
      fst (CSVInputReader_ReadAndValidateHeader validateReaderFields rc) \<noteq> None)
   \<and> (fst (CSVInputReader_ReadAndValidateHeader validate rc) = None \<longrightarrow>
      fieldList (snd (CSVInputReader_ReadAndValidateHeader validate rc))
        = fst (fst (csv_Read (csvReader rc) (sizeTracker rc))))"
    by (auto simp: CSV_header_result Let_def validateReaderFields_None
             split: option.splits)
  have tsv: "(snd (fst (ReadString entryDelimiter (tsvReader rt) (sizeTracker rt))) = Some e \<longrightarrow>
      fst (TSVInputReader_ReadAndValidateHeader validate rt) = Some e)
   \<and> (snd (fst (ReadString entryDelimiter (tsvReader rt) (sizeTracker rt))) = None
        \<and> \<not> distinct (tsv_header_names
               (fst (fst (ReadString entryDelimiter (tsvReader rt) (sizeTracker rt))))) \<longrightarrow>
      fst (TSVInputReader_ReadAndValidateHeader validateReaderFields rt) \<noteq> None)
   \<and> (fst (TSVInputReader_ReadAndValidateHeader validate rt) = None \<longrightarrow>
      fieldList (snd (TSVInputReader_ReadAndValidateHeader validate rt))
        = fieldList rt @ tsv_header_names
            (fst (fst (ReadString entryDelimiter (tsvReader rt) (sizeTracker rt)))))"
    by (auto simp: TSV_header_result Let_def validateReaderFields_None
             split: option.splits)
  have io: "entryDelimiter \<notin> set (pending inp) \<longrightarrow>
      fst (TSVInputReader_ReadAndValidateHeader validate (NewTSVInputReader fs inp n))
        = Some (ending inp)"
    using ReadString_no_line [of inp fs n] by (simp add: TSV_header_result Let_def)
  from csv tsv io ReadAndValidateHeader_numProcessed(1) [of validate rc]
    ReadAndValidateHeader_numProcessed(2) [of validate rt]
  show ?thesis by blast
qed

definition header_aab_csv :: source where
  "header_aab_csv =
     \<lparr>pending = [CHR ''a'', CHR '','', CHR ''a'', CHR '','', CHR ''b'', CHR 0x0A, CHR ''1''],
      ending = EOF\<rparr>"

definition header_aab_tsv :: source where
  "header_aab_tsv =
     \<lparr>pending = [CHR ''a'', CHR 0x09, CHR ''a'', CHR 0x09, CHR ''b'', CHR 0x0A, CHR ''1''],
      ending = EOF\<rparr>"

lemma header_aab_csv_Read:
  "fst (csv_Read (csvReader (NewCSVInputReader [] header_aab_csv 1))
          (sizeTracker (NewCSVInputReader [] header_aab_csv 1)))
     = ([''a'', ''a'', ''b''], None)"
  by (simp add: header_aab_csv_def run)

lemma header_aab_tsv_Read:
  "fst (ReadString entryDelimiter (tsvReader (NewTSVInputReader [] header_aab_tsv 1))
          (sizeTracker (NewTSVInputReader [] header_aab_tsv 1)))
     = ([CHR ''a'', CHR 0x09, CHR ''a'', CHR 0x09, CHR ''b'', CHR 0x0A], None)"
  by (simp add: header_aab_tsv_def run)

theorem C8_header_errors_returned_witness:
  "fst (CSVInputReader_ReadAndValidateHeader validateReaderFields
          (NewCSVInputReader [] header_aab_csv 1)) \<noteq> None
   \<and> fst (TSVInputReader_ReadAndValidateHeader validateReaderFields
          (NewTSVInputReader [] header_aab_tsv 1)) \<noteq> None
   \<and> fst (TSVInputReader_ReadAndValidateHeader validateReaderFields
          (NewTSVInputReader [] \<lparr>pending = ''a'', ending = SourceError ''reset''\<rparr> 1))
       = Some (SourceError ''reset'')"
proof -
  let ?rc = "NewCSVInputReader [] header_aab_csv 1"
  let ?rt = "NewTSVInputReader [] header_aab_tsv 1"
  let ?inp = "\<lparr>pending = ''a'', ending = SourceError ''reset''\<rparr>"
  note h = C8_header_errors_returned [of ?rc EOF validateReaderFields ?rt ?inp "[]" 1]
  have c: "snd (fst (csv_Read (csvReader ?rc) (sizeTracker ?rc))) = None
        \<and> \<not> distinct (fst (fst (csv_Read (csvReader ?rc) (sizeTracker ?rc))))"
    by (simp add: header_aab_csv_Read)
  have t: "snd (fst (ReadString entryDelimiter (tsvReader ?rt) (sizeTracker ?rt))) = None
        \<and> \<not> distinct (tsv_header_names
               (fst (fst (ReadString entryDelimiter (tsvReader ?rt) (sizeTracker ?rt)))))"
    by (simp add: header_aab_tsv_Read tsv_header_names_def strip_line_terminators_def)
  have i: "entryDelimiter \<notin> set (pending ?inp)"
    by (simp add: entryDelimiter_def)
  from h c have 1: "fst (CSVInputReader_ReadAndValidateHeader validateReaderFields ?rc) \<noteq> None"
    by blast
  from h t have 2: "fst (TSVInputReader_ReadAndValidateHeader validateReaderFields ?rt) \<noteq> None"
    by blast
  from h i have "fst (TSVInputReader_ReadAndValidateHeader validateReaderFields
          (NewTSVInputReader [] ?inp 1)) = Some (ending ?inp)"
    by blast
  with 1 2 show ?thesis by simp
qed

subsection \<open>The bytes counted by the size tracker\<close>

lemma readRune_Fail: "readRune e cs = Fail x \<Longrightarrow> e = Some x"
  by (auto simp: readRune_def stop_def split: list.splits if_splits option.splits)

lemma unquoted_EOF:
  "unquoted e field cs = Fail EOF \<or> (\<exists>h f r. unquoted e field cs = Done (h, f, AtEOF) r)
     \<Longrightarrow> e = Some EOF"
proof (induction e field cs rule: unquoted.induct)
  case (1 e field cs)
  show ?case
  proof (cases "readRune e cs")
    case More
    with "1.prems" show ?thesis by (simp add: unquoted.simps [of e field cs])
  next
    case (Fail x)
    with "1.prems" have "x = EOF"
      by (auto simp: unquoted.simps [of e field cs] split: if_splits)
    with readRune_Fail [OF Fail] show ?thesis by simp
  next
    case (Done c r')
    with "1.prems" "1.IH" [OF Done] show ?thesis
      by (auto simp: unquoted.simps [of e field cs] split: if_splits)
  qed
qed

lemma quoted_EOF:
  "quoted e field cs = Fail EOF \<or> (\<exists>h f r. quoted e field cs = Done (h, f, AtEOF) r)
     \<Longrightarrow> e = Some EOF"
proof (induction e field cs rule: quoted.induct)
  case (1 e field cs)
  show ?case
  proof (cases "readRune e cs")
    case More
    with "1.prems" show ?thesis by (simp add: quoted.simps [of e field cs])
  next
    case (Fail x)
    with "1.prems" have "x = EOF"
      by (auto simp: quoted.simps [of e field cs] split: if_splits)
    with readRune_Fail [OF Fail] show ?thesis by simp
  next
    case (Done c r')
    note d1 = this
    show ?thesis
    proof (cases "c = CHR 0x22")
      case False
      with "1.prems" "1.IH"(2) [OF d1 False] show ?thesis
        by (auto simp: quoted.simps [of e field cs] d1)
    next
      case True
      show ?thesis
      proof (cases "readRune e r'")
        case More
        with "1.prems" d1 True show ?thesis by (simp add: quoted.simps [of e field cs])
      next
        case (Fail x)
        with "1.prems" d1 True have "x = EOF"
          by (auto simp: quoted.simps [of e field cs] split: if_splits)
        with readRune_Fail [OF Fail] show ?thesis by simp
      next
        case (Done c2 r2)
        with "1.prems" d1 True "1.IH"(1) [OF d1 True Done] show ?thesis
          by (auto simp: quoted.simps [of e field cs] split: if_splits)
      qed
    qed
  qed
qed

lemma parseField_EOF:
  "parseField trim e col0 cs = Fail EOF
     \<or> (\<exists>h f r. parseField trim e col0 cs = Done (h, f, AtEOF) r)
     \<Longrightarrow> e = Some EOF"
proof (induction trim e col0 cs rule: parseField.induct)
  case (1 trim e col0 cs)
  show ?case
  proof (cases "readRune e cs")
    case More
    with "1.prems" show ?thesis by (simp add: parseField.simps [of trim e col0 cs])
  next
    case (Fail x)
    then have "parseField trim e col0 cs
        = (if x = EOF then Done (\<not> col0, [], AtEOF) [] else Fail x)"
      by (simp add: parseField.simps [of trim e col0 cs])
    with "1.prems" have "x = EOF"
      by (cases "x = EOF") simp_all
    with readRune_Fail [OF Fail] show ?thesis by simp
  next
    case (Done c r')
    note unfold = parseField.simps [of trim e col0 cs]
    show ?thesis
    proof (cases "trim \<and> c \<noteq> CHR 0x0A \<and> isSpace c")
      case True
      have "parseField trim e col0 cs = parseField trim e False r'"
        by (subst unfold) (simp add: Done True)
      with "1.prems" "1.IH" [OF Done True] show ?thesis by simp
    next
      case nospace: False
      show ?thesis
      proof (cases "c = CHR '',''")
        case True
        have "parseField trim e col0 cs = Done (True, [], AtComma) r'"
          by (subst unfold) (simp add: Done True isSpace_def)
        with "1.prems" show ?thesis by simp
      next
        case nocomma: False
        show ?thesis
        proof (cases "c = CHR 0x0A")
          case True
          have "parseField trim e col0 cs = Done (\<not> col0, [], AtNewline) r'"
            by (subst unfold) (simp add: Done True)
          with "1.prems" show ?thesis by simp
        next
          case nonl: False
          show ?thesis
          proof (cases "c = CHR 0x22")
            case True
            have "parseField trim e col0 cs = quoted e [] r'"
              by (subst unfold) (simp add: Done True isSpace_def)
            with "1.prems" quoted_EOF [of e "[]" r'] show ?thesis by simp
          next
            case False
            from nospace nonl have ns: "\<not> (trim \<and> isSpace c)" by simp
            have "parseField trim e col0 cs = unquoted e [c] r'"
              by (subst unfold) (simp add: Done ns nocomma nonl False)
            with "1.prems" unquoted_EOF [of e "[c]" r'] show ?thesis by simp
          qed
        qed
      qed
    qed
  qed
qed

lemma fieldsLoop_EOF:
  "fieldsLoop trim e col0 fs cs = Fail EOF
     \<or> (\<exists>fs' y r. fieldsLoop trim e col0 fs cs = Done (fs', Some y) r)
     \<Longrightarrow> e = Some EOF"
proof (induction trim e col0 fs cs rule: fieldsLoop.induct)
  case (1 trim e col0 fs cs)
  show ?case
  proof (cases "parseField trim e col0 cs")
    case More
    with "1.prems" show ?thesis by (simp add: fieldsLoop.simps [of trim e col0 fs cs])
  next
    case (Fail x)
    with "1.prems" parseField_EOF [of trim e col0 cs] show ?thesis
      by (auto simp: fieldsLoop.simps [of trim e col0 fs cs])
  next
    case (Done res r')
    obtain h f d where res: "res = (h, f, d)" by (cases res) auto
    show ?thesis
    proof (cases d)
      case AtComma
      with "1.prems" "1.IH" [OF Done] Done res show ?thesis
        by (auto simp: fieldsLoop.simps [of trim e col0 fs cs])
    next
      case AtNewline
      with "1.prems" Done res show ?thesis
        by (auto simp: fieldsLoop.simps [of trim e col0 fs cs])
    next
      case AtEOF
      with Done res parseField_EOF [of trim e col0 cs] show ?thesis
        by auto
    qed
  qed
qed

lemma parseRecord_EOF:
  "parseRecord trim e cs = Fail EOF
     \<or> (\<exists>fs' y r. parseRecord trim e cs = Done (fs', Some y) r)
     \<Longrightarrow> e = Some EOF"
  using fieldsLoop_EOF [of trim e True "[]" cs]
  by (cases cs) (auto simp: parseRecord_def stop_def split: option.splits)

lemma readLoop_EOF: "readLoop trim e cs = Fail EOF \<Longrightarrow> e = Some EOF"
proof (induction trim e cs rule: readLoop.induct)
  case (1 trim e cs)
  show ?case
  proof (cases "parseRecord trim e cs")
    case More
    with "1.prems" show ?thesis by (simp add: readLoop.simps [of trim e cs])
  next
    case (Fail x)
    with "1.prems" parseRecord_EOF [of trim e cs] show ?thesis
      by (auto simp: readLoop.simps [of trim e cs])
  next
    case (Done res r')
    obtain fs' y where res: "res = (fs', y)" by (cases res) auto
    with "1.prems" "1.IH" [OF Done] Done parseRecord_EOF [of trim e cs] show ?thesis
      by (auto simp: readLoop.simps [of trim e cs] split: if_splits option.splits)
  qed
qed

text \<open>
  What a call of the csv reader's \<open>Read\<close> keeps true when it pulls through
  \<open>szCount\<close>: the counter and the bytes left in the source add up to the same number,
  and a result \<^verbatim>\<open>io.EOF\<close> means that the source has nothing left.
\<close>

lemma synced_buf: "synced (b\<lparr>buf := x\<rparr>) t = synced b t"
  by (simp add: synced_def)

lemma csv_Read_counts:
  assumes "rd (bufReader c) = Rd_szCount" and "synced (bufReader c) t"
  shows "rd (bufReader (fst (snd (csv_Read c t)))) = Rd_szCount
       \<and> synced (bufReader (fst (snd (csv_Read c t)))) (snd (snd (csv_Read c t)))
       \<and> bytesRead (snd (snd (csv_Read c t)))
           + length (pending (reader (snd (snd (csv_Read c t)))))
         = bytesRead t + length (pending (reader t))
       \<and> (snd (fst (csv_Read c t)) = Some EOF \<longrightarrow>
            pending (reader (snd (snd (csv_Read c t)))) = [])"
  using assms
proof (induction c t rule: csv_Read.induct)
  case (1 c t)
  show ?case
  proof (cases "readLoop (TrimLeadingSpace c) (err (bufReader c)) (buf (bufReader c))")
    case More
    have "rd (bufReader (c\<lparr>bufReader := fst (fill (bufReader c) t)\<rparr>)) = Rd_szCount"
      using "1.prems"(1) by (simp add: fill_rd)
    moreover have "synced (bufReader (c\<lparr>bufReader := fst (fill (bufReader c) t)\<rparr>))
                     (snd (fill (bufReader c) t))"
      by (simp add: fill_synced)
    ultimately show ?thesis
      using "1.IH" [OF More] More fill_bytesRead_szCount [OF "1.prems"(1), of t]
      by (simp add: csv_Read.simps [of c t])
  next
    case (Fail x)
    with "1.prems" readLoop_EOF [of "TrimLeadingSpace c" "err (bufReader c)" "buf (bufReader c)"]
    show ?thesis
      by (auto simp: csv_Read.simps [of c t] synced_def)
  next
    case (Done fs rest)
    with "1.prems" show ?thesis
      by (simp add: csv_Read.simps [of c t] synced_buf Let_def)
  qed
qed

lemma CSV_producer_counts:
  assumes "rd (bufReader (csvReader r)) = Rd_szCount"
    and "synced (bufReader (csvReader r)) (sizeTracker r)"
    and "lastErr (CSV_producer r) = EOF"
  shows "bytesRead (sizeTracker (endState (CSV_producer r)))
           = bytesRead (sizeTracker r) + length (pending (reader (sizeTracker r)))"
  using assms
proof (induction r rule: CSV_producer.induct)
  case (1 r)
  note C = csv_Read_counts [OF "1.prems"(1,2)]
  show ?case
  proof (cases "CSV_turn r")
    case (Emit d r')
    note E = CSV_turn_Emit [OF Emit]
    from "1.prems"(3) Emit have "lastErr (CSV_producer r') = EOF"
      by (simp add: CSV_producer.simps [of r] Let_def)
    with "1.IH" [OF Emit] C E(7,8) Emit show ?thesis
      by (simp add: CSV_producer.simps [of r] Let_def)
  next
    case (Halt e sent r')
    note H = CSV_turn_Halt [OF Halt]
    from "1.prems"(3) Halt have "e = EOF"
      by (simp add: CSV_producer.simps [of r])
    with C H(2,4,5) Halt show ?thesis
      by (auto simp: CSV_producer.simps [of r])
  qed
qed

lemma TSV_producer_counts:
  "rd (tsvReader r) = Rd_in \<Longrightarrow>
   bytesRead (sizeTracker (endState (TSV_producer r))) = bytesRead (sizeTracker r)"
proof (induction r rule: TSV_producer.induct)
  case (1 r)
  show ?case
  proof (cases "TSV_turn r")
    case (Emit d r')
    note E = TSV_turn_Emit [OF Emit]
    from "1.IH" [OF Emit] "1.prems" E(7,8) Emit show ?thesis
      by (simp add: TSV_producer.simps [of r] Let_def ReadString_rd ReadString_bytesRead_in)
  next
    case (Halt e sent r')
    note H = TSV_turn_Halt [OF Halt]
    from "1.prems" H(5) Halt show ?thesis
      by (simp add: TSV_producer.simps [of r] ReadString_bytesRead_in)
  qed
qed

lemma TSV_producer_drains:
  "synced (tsvReader r) (sizeTracker r) \<Longrightarrow>
   unread (tsvReader (endState (TSV_producer r))) (sizeTracker (endState (TSV_producer r))) = []"
proof (induction r rule: TSV_producer.induct)
  case (1 r)
  show ?case
  proof (cases "TSV_turn r")
    case (Emit d r')
    note E = TSV_turn_Emit [OF Emit]
    have "synced (tsvReader r') (sizeTracker r')"
      using ReadString_synced [OF "1.prems"] E(7,8) by simp
    with "1.IH" [OF Emit] Emit show ?thesis
      by (simp add: TSV_producer.simps [of r] Let_def)
  next
    case (Halt e sent r')
    note H = TSV_turn_Halt [OF Halt]
    have "entryDelimiter \<notin> set (unread (tsvReader r) (sizeTracker r))"
    proof
      assume "entryDelimiter \<in> set (unread (tsvReader r) (sizeTracker r))"
      from ReadString_found [OF "1.prems" this] H(2) show False by simp
    qed
    from ReadString_missing [OF "1.prems" this] H(4,5) Halt show ?thesis
      by (simp add: TSV_producer.simps [of r])
  qed
qed

lemma CSV_size_after_drain:
  assumes "lastErr (CSV_producer (NewCSVInputReader fs inp n)) = EOF"
  shows "Size (sizeTracker (endState (CSV_producer (NewCSVInputReader fs inp n))))
           = length (pending inp)"
proof -
  let ?r = "NewCSVInputReader fs inp n"
  have "synced (bufReader (csvReader ?r)) (sizeTracker ?r)"
    by (simp add: synced_def NewCSVInputReader_start)
  from CSV_producer_counts [OF NewCSVInputReader_start(5) this assms] show ?thesis
    by (simp add: Size_def NewCSVInputReader_start)
qed

lemma TSV_size_stays_zero:
  "Size (sizeTracker (endState (TSV_producer (NewTSVInputReader fs inp n)))) = 0"
  using TSV_producer_counts [OF NewTSVInputReader_start(7), of fs inp n]
  by (simp add: Size_def NewTSVInputReader_start)

lemma TSV_source_drained:
  "pending (reader (sizeTracker (endState (TSV_producer (NewTSVInputReader fs inp n))))) = []"
  using TSV_producer_drains [OF NewTSVInputReader_start(1), of fs inp n]
  by (simp add: unread_def)

definition tsv_four_bytes :: source where
  "tsv_four_bytes = \<lparr>pending = [CHR ''a'', CHR 0x09, CHR ''b'', CHR 0x0A], ending = EOF\<rparr>"

definition csv_four_bytes :: source where
  "csv_four_bytes = \<lparr>pending = [CHR ''a'', CHR '','', CHR ''b'', CHR 0x0A], ending = EOF\<rparr>"

text \<open>
  C1. After the source has been drained, the size tracker of the CSV reader reports the
  byte length of the source, but the size tracker of the TSV reader reports 0:
  \<^verbatim>\<open>NewTSVInputReader\<close> hands \<^verbatim>\<open>in\<close>, not \<^verbatim>\<open>szCount\<close>, to \<^verbatim>\<open>bufio.NewReader\<close>, so no
  byte is ever pulled through the tracker (\<open>TSV_size_stays_zero\<close>), while the CSV
  reader reads through \<^verbatim>\<open>szCount\<close> and counts every byte (\<open>CSV_size_after_drain\<close>).
  On the four-byte source \<open>a<TAB>b<LF>\<close> the TSV producer drains the source and
  the size tracker still reports 0; the CSV reader on the source \<open>a,b<LF>\<close> reports 4.
\<close>

theorem C1_TSV_size_tracker_reports_zero:
  "Size (sizeTracker (endState (TSV_producer (NewTSVInputReader [] tsv_four_bytes 1)))) = 0
   \<and> pending (reader (sizeTracker
         (endState (TSV_producer (NewTSVInputReader [] tsv_four_bytes 1))))) = []
   \<and> lastErr (TSV_producer (NewTSVInputReader [] tsv_four_bytes 1)) = EOF
   \<and> length (pending tsv_four_bytes) = 4
   \<and> Size (sizeTracker (endState (CSV_producer (NewCSVInputReader [] csv_four_bytes 1)))) = 4"
  by (simp add: tsv_four_bytes_def csv_four_bytes_def run)

subsection \<open>The values sent on the error channel\<close>






subsection \<open>The producer goroutine, step by step\<close>
















subsection \<open>Tokens from the raw line to the conversion\<close>

























end
